theory Spec2Isabelle
  imports Main "HOL-Library.Word"
begin

unbundle bit_operations_syntax

section \<open>Embedded ASCII font: data model\<close>

text \<open>
  A shallow embedding of \<^verbatim>\<open>embedded_ascii.h\<close>. \<^verbatim>\<open>uint8_t\<close> and \<^verbatim>\<open>uint16_t\<close> are 8-bit
  and 16-bit words, \<^verbatim>\<open>char\<close> is the 8-bit \<^typ>\<open>char\<close>.

  The C type \<^verbatim>\<open>int\<close> is 32 bits wide. A value of that type is an \<^typ>\<open>int\<close> between
  \<open>INT_MIN\<close> and \<open>INT_MAX\<close>, and the result of every addition, subtraction and
  multiplication the code makes in \<^verbatim>\<open>int\<close> is reduced to that range by \<open>wrap_int\<close>,
  as two's complement hardware does (C itself leaves the overflow undefined). The
  loop counters \<^verbatim>\<open>row\<close> and \<^verbatim>\<open>col\<close> run from 0 to 8 and are not reduced.
\<close>

definition INT_MAX :: int where
  "INT_MAX = 2147483647"

definition INT_MIN :: int where
  "INT_MIN = - 2147483648"

definition wrap_int :: "int \<Rightarrow> int" where
  "wrap_int v = (v + 2147483648) mod 4294967296 - 2147483648"

type_synonym uint8_t = "8 word"
type_synonym uint16_t = "16 word"
type_synonym ascii_mono_color_t = uint8_t
type_synonym ascii_rgb565_color_t = uint16_t

definition ASCII_FONT_WIDTH :: int where
  "ASCII_FONT_WIDTH = 8"

definition ASCII_FONT_HEIGHT :: int where
  "ASCII_FONT_HEIGHT = 8"

definition ASCII_FIRST_CHAR :: int where
  "ASCII_FIRST_CHAR = 32"

definition ASCII_LAST_CHAR :: int where
  "ASCII_LAST_CHAR = 127"

definition ASCII_CHAR_COUNT :: int where
  "ASCII_CHAR_COUNT = ASCII_LAST_CHAR - ASCII_FIRST_CHAR"

text \<open>
  The table \<^verbatim>\<open>ascii_font[ASCII_CHAR_COUNT][ASCII_FONT_HEIGHT]\<close>, row by row as in
  the source: entry \<open>i\<close> is the glyph of the character with code \<open>32 + i\<close>.
\<close>

definition ascii_font :: "uint8_t list list" where
  "ascii_font =
    [
     [0x00, 0x00, 0x00, 0x00, 0x00, 0x00, 0x00, 0x00],
     [0x00, 0x00, 0x00, 0x00, 0x00, 0x00, 0x00, 0x00],
     [0x00, 0x00, 0x00, 0x00, 0x00, 0x00, 0x00, 0x00],
     [0x00, 0x00, 0x00, 0x00, 0x00, 0x00, 0x00, 0x00],
     [0x00, 0x00, 0x00, 0x00, 0x00, 0x00, 0x00, 0x00],
     [0x00, 0x00, 0x00, 0x00, 0x00, 0x00, 0x00, 0x00],
     [0x00, 0x00, 0x00, 0x00, 0x00, 0x00, 0x00, 0x00],
     [0x00, 0x00, 0x00, 0x00, 0x00, 0x00, 0x00, 0x00],
     [0x00, 0x00, 0x00, 0x00, 0x00, 0x00, 0x00, 0x00],
     [0x00, 0x00, 0x00, 0x00, 0x00, 0x00, 0x00, 0x00],
     [0x00, 0x00, 0x00, 0x00, 0x00, 0x00, 0x00, 0x00],
     [0x00, 0x00, 0x00, 0x00, 0x00, 0x00, 0x00, 0x00],
     [0x00, 0x00, 0x00, 0x00, 0x00, 0x00, 0x00, 0x00],
     [0x00, 0x00, 0x00, 0x00, 0x00, 0x00, 0x00, 0x00],
     [0x00, 0x00, 0x00, 0x00, 0x00, 0x00, 0x00, 0x00],
     [0x00, 0x00, 0x00, 0x00, 0x00, 0x00, 0x00, 0x00],
     [0x3E, 0x7F, 0x6B, 0x6B, 0x6B, 0x6B, 0x7F, 0x3E],
     [0x00, 0x00, 0x00, 0x00, 0x00, 0x00, 0x00, 0x00],
     [0x00, 0x00, 0x00, 0x00, 0x00, 0x00, 0x00, 0x00],
     [0x00, 0x00, 0x00, 0x00, 0x00, 0x00, 0x00, 0x00],
     [0x00, 0x00, 0x00, 0x00, 0x00, 0x00, 0x00, 0x00],
     [0x00, 0x00, 0x00, 0x00, 0x00, 0x00, 0x00, 0x00],
     [0x00, 0x00, 0x00, 0x00, 0x00, 0x00, 0x00, 0x00],
     [0x00, 0x00, 0x00, 0x00, 0x00, 0x00, 0x00, 0x00],
     [0x00, 0x00, 0x00, 0x00, 0x00, 0x00, 0x00, 0x00],
     [0x00, 0x00, 0x00, 0x00, 0x00, 0x00, 0x00, 0x00],
     [0x00, 0x00, 0x00, 0x00, 0x00, 0x00, 0x00, 0x00],
     [0x00, 0x00, 0x00, 0x00, 0x00, 0x00, 0x00, 0x00],
     [0x00, 0x00, 0x00, 0x00, 0x00, 0x00, 0x00, 0x00],
     [0x00, 0x00, 0x00, 0x00, 0x00, 0x00, 0x00, 0x00],
     [0x00, 0x00, 0x00, 0x00, 0x00, 0x00, 0x00, 0x00],
     [0x00, 0x00, 0x00, 0x00, 0x00, 0x00, 0x00, 0x00],
     [0x00, 0x00, 0x00, 0x00, 0x00, 0x00, 0x00, 0x00],
     [0x00, 0x00, 0x00, 0x00, 0x00, 0x00, 0x00, 0x00],
     [0x00, 0x00, 0x00, 0x00, 0x00, 0x00, 0x00, 0x00],
     [0x00, 0x00, 0x00, 0x00, 0x00, 0x00, 0x00, 0x00],
     [0x00, 0x00, 0x00, 0x00, 0x00, 0x00, 0x00, 0x00],
     [0x00, 0x00, 0x00, 0x00, 0x00, 0x00, 0x00, 0x00],
     [0x00, 0x00, 0x00, 0x00, 0x00, 0x00, 0x00, 0x00],
     [0x00, 0x00, 0x00, 0x00, 0x00, 0x00, 0x00, 0x00],
     [0x00, 0x00, 0x00, 0x00, 0x00, 0x00, 0x00, 0x00],
     [0x00, 0x00, 0x00, 0x00, 0x00, 0x00, 0x00, 0x00],
     [0x00, 0x00, 0x00, 0x00, 0x00, 0x00, 0x00, 0x00],
     [0x00, 0x00, 0x00, 0x00, 0x00, 0x00, 0x00, 0x00],
     [0x00, 0x00, 0x00, 0x00, 0x00, 0x00, 0x00, 0x00],
     [0x00, 0x00, 0x00, 0x00, 0x00, 0x00, 0x00, 0x00],
     [0x00, 0x00, 0x00, 0x00, 0x00, 0x00, 0x00, 0x00],
     [0x00, 0x00, 0x00, 0x00, 0x00, 0x00, 0x00, 0x00],
     [0x00, 0x00, 0x00, 0x00, 0x00, 0x00, 0x00, 0x00],
     [0x00, 0x00, 0x00, 0x00, 0x00, 0x00, 0x00, 0x00],
     [0x00, 0x00, 0x00, 0x00, 0x00, 0x00, 0x00, 0x00],
     [0x00, 0x00, 0x00, 0x00, 0x00, 0x00, 0x00, 0x00],
     [0x00, 0x00, 0x00, 0x00, 0x00, 0x00, 0x00, 0x00],
     [0x00, 0x00, 0x00, 0x00, 0x00, 0x00, 0x00, 0x00],
     [0x00, 0x00, 0x00, 0x00, 0x00, 0x00, 0x00, 0x00],
     [0x00, 0x00, 0x00, 0x00, 0x00, 0x00, 0x00, 0x00],
     [0x00, 0x00, 0x00, 0x00, 0x00, 0x00, 0x00, 0x00],
     [0x00, 0x00, 0x00, 0x00, 0x00, 0x00, 0x00, 0x00],
     [0x00, 0x00, 0x00, 0x00, 0x00, 0x00, 0x00, 0x00],
     [0x00, 0x00, 0x00, 0x00, 0x00, 0x00, 0x00, 0x00],
     [0x00, 0x00, 0x00, 0x00, 0x00, 0x00, 0x00, 0x00],
     [0x00, 0x00, 0x00, 0x00, 0x00, 0x00, 0x00, 0x00],
     [0x00, 0x00, 0x00, 0x00, 0x00, 0x00, 0x00, 0x00],
     [0x00, 0x00, 0x00, 0x00, 0x00, 0x00, 0x00, 0x00],
     [0x00, 0x00, 0x00, 0x00, 0x00, 0x00, 0x00, 0x00],
     [0x00, 0x00, 0x00, 0x00, 0x00, 0x00, 0x00, 0x00],
     [0x00, 0x00, 0x00, 0x00, 0x00, 0x00, 0x00, 0x00],
     [0x00, 0x00, 0x00, 0x00, 0x00, 0x00, 0x00, 0x00],
     [0x00, 0x00, 0x00, 0x00, 0x00, 0x00, 0x00, 0x00],
     [0x00, 0x00, 0x00, 0x00, 0x00, 0x00, 0x00, 0x00],
     [0x00, 0x00, 0x00, 0x00, 0x00, 0x00, 0x00, 0x00],
     [0x00, 0x00, 0x00, 0x00, 0x00, 0x00, 0x00, 0x00],
     [0x00, 0x00, 0x00, 0x00, 0x00, 0x00, 0x00, 0x00],
     [0x00, 0x00, 0x00, 0x00, 0x00, 0x00, 0x00, 0x00],
     [0x00, 0x00, 0x00, 0x00, 0x00, 0x00, 0x00, 0x00],
     [0x00, 0x00, 0x00, 0x00, 0x00, 0x00, 0x00, 0x00],
     [0x00, 0x00, 0x00, 0x00, 0x00, 0x00, 0x00, 0x00],
     [0x00, 0x00, 0x00, 0x00, 0x00, 0x00, 0x00, 0x00],
     [0x00, 0x00, 0x00, 0x00, 0x00, 0x00, 0x00, 0x00],
     [0x00, 0x00, 0x00, 0x00, 0x00, 0x00, 0x00, 0x00],
     [0x00, 0x00, 0x00, 0x00, 0x00, 0x00, 0x00, 0x00],
     [0x00, 0x00, 0x00, 0x00, 0x00, 0x00, 0x00, 0x00],
     [0x00, 0x00, 0x00, 0x00, 0x00, 0x00, 0x00, 0x00],
     [0x00, 0x00, 0x00, 0x00, 0x00, 0x00, 0x00, 0x00],
     [0x00, 0x00, 0x00, 0x00, 0x00, 0x00, 0x00, 0x00],
     [0x00, 0x00, 0x00, 0x00, 0x00, 0x00, 0x00, 0x00],
     [0x00, 0x00, 0x00, 0x00, 0x00, 0x00, 0x00, 0x00],
     [0x00, 0x00, 0x00, 0x00, 0x00, 0x00, 0x00, 0x00],
     [0x00, 0x00, 0x00, 0x00, 0x00, 0x00, 0x00, 0x00],
     [0x00, 0x00, 0x00, 0x00, 0x00, 0x00, 0x00, 0x00],
     [0x00, 0x00, 0x00, 0x00, 0x00, 0x00, 0x00, 0x00],
     [0x00, 0x00, 0x00, 0x00, 0x00, 0x00, 0x00, 0x00],
     [0x00, 0x00, 0x00, 0x00, 0x00, 0x00, 0x00, 0x00],
     [0x00, 0x00, 0x00, 0x00, 0x00, 0x00, 0x00, 0x00],
     [0x00, 0x00, 0x00, 0x00, 0x00, 0x00, 0x00, 0x00]
    ]"

subsection \<open>Characters\<close>

text \<open>
  The value a \<^verbatim>\<open>char\<close> has once promoted to \<^verbatim>\<open>int\<close>. Whether plain \<^verbatim>\<open>char\<close> is
  signed is up to the platform: \<open>char_to_int\<close> is the signed reading (two's
  complement), \<open>uchar_to_int\<close> the unsigned one.
\<close>

definition char_to_int :: "char \<Rightarrow> int" where
  "char_to_int c = (if (of_char c :: int) < 128 then of_char c else of_char c - 256)"

definition uchar_to_int :: "char \<Rightarrow> int" where
  "uchar_to_int c = of_char c"

subsection \<open>Glyph lookup\<close>

text \<open>
  \<^verbatim>\<open>ascii_get_char_bitmap\<close> on the promoted value of its argument: the range test and
  the index \<^verbatim>\<open>c - ASCII_FIRST_CHAR\<close> are computed in \<^verbatim>\<open>int\<close>.
\<close>

definition get_char_bitmap_at :: "int \<Rightarrow> uint8_t list" where
  "get_char_bitmap_at c =
     (if c < ASCII_FIRST_CHAR \<or> c \<ge> ASCII_LAST_CHAR
      then ascii_font ! 0
      else ascii_font ! nat (c - ASCII_FIRST_CHAR))"

definition ascii_get_char_bitmap :: "char \<Rightarrow> uint8_t list" where
  "ascii_get_char_bitmap c = get_char_bitmap_at (char_to_int c)"

text \<open>The same function where plain \<^verbatim>\<open>char\<close> is unsigned.\<close>

definition ascii_get_char_bitmap_unsigned :: "char \<Rightarrow> uint8_t list" where
  "ascii_get_char_bitmap_unsigned c = get_char_bitmap_at (uchar_to_int c)"

section \<open>Drawing through a pixel callback\<close>

text \<open>
  \<^verbatim>\<open>ascii_pixel_fn\<close> is called for its effect only. The model gives the callback the
  state \<open>'s\<close> it acts on and threads that state through the calls in the order the
  code makes them; \<open>'c\<close> and \<open>'u\<close> stand for what \<^verbatim>\<open>color\<close> and \<^verbatim>\<open>user_data\<close>
  point to.
\<close>

type_synonym ('c, 'u, 's) ascii_pixel_fn = "int \<Rightarrow> int \<Rightarrow> 'c \<Rightarrow> 'u \<Rightarrow> 's \<Rightarrow> 's"

text \<open>
  The inner loop of \<^verbatim>\<open>ascii_draw_char\<close>, from column \<open>col\<close> on. The test is
  \<^verbatim>\<open>bitmap[row] & (1 << (7 - col))\<close>, computed in \<^verbatim>\<open>int\<close> after promotion; the
  coordinates \<^verbatim>\<open>x + col\<close> and \<^verbatim>\<open>y + row\<close> are \<^verbatim>\<open>int\<close> sums.
\<close>

function ascii_draw_char_cols ::
  "uint8_t list \<Rightarrow> int \<Rightarrow> int \<Rightarrow> ('c, 'u, 's) ascii_pixel_fn \<Rightarrow> 'c \<Rightarrow> 'u \<Rightarrow> int \<Rightarrow> int \<Rightarrow> 's \<Rightarrow> 's"
where
  "ascii_draw_char_cols bitmap x y pixel_fn color user_data row col s =
     (if col < ASCII_FONT_WIDTH then
        ascii_draw_char_cols bitmap x y pixel_fn color user_data row (col + 1)
          (if uint (bitmap ! nat row) AND push_bit (nat (7 - col)) 1 \<noteq> 0
           then pixel_fn (wrap_int (x + col)) (wrap_int (y + row)) color user_data s
           else s)
      else s)"
  by pat_completeness auto
termination
  by (relation "measure (\<lambda>(bitmap, x, y, pixel_fn, color, user_data, row, col, s).
        nat (ASCII_FONT_WIDTH - col))") auto

text \<open>The outer loop of \<^verbatim>\<open>ascii_draw_char\<close>, from row \<open>row\<close> on.\<close>

function ascii_draw_char_rows ::
  "uint8_t list \<Rightarrow> int \<Rightarrow> int \<Rightarrow> ('c, 'u, 's) ascii_pixel_fn \<Rightarrow> 'c \<Rightarrow> 'u \<Rightarrow> int \<Rightarrow> 's \<Rightarrow> 's"
where
  "ascii_draw_char_rows bitmap x y pixel_fn color user_data row s =
     (if row < ASCII_FONT_HEIGHT then
        ascii_draw_char_rows bitmap x y pixel_fn color user_data (row + 1)
          (ascii_draw_char_cols bitmap x y pixel_fn color user_data row 0 s)
      else s)"
  by pat_completeness auto
termination
  by (relation "measure (\<lambda>(bitmap, x, y, pixel_fn, color, user_data, row, s).
        nat (ASCII_FONT_HEIGHT - row))") auto

definition ascii_draw_char ::
  "char \<Rightarrow> int \<Rightarrow> int \<Rightarrow> ('c, 'u, 's) ascii_pixel_fn \<Rightarrow> 'c \<Rightarrow> 'u \<Rightarrow> 's \<Rightarrow> 's"
where
  "ascii_draw_char c x y pixel_fn color user_data s =
     ascii_draw_char_rows (ascii_get_char_bitmap c) x y pixel_fn color user_data 0 s"

section \<open>Text\<close>

text \<open>
  A \<^verbatim>\<open>const char*\<close> argument is the memory from the pointer on, a list of
  characters. The loops read it up to the first NUL; reading past the end of the
  list is reading past the object, which C leaves undefined: the result is \<open>None\<close>.
\<close>

text \<open>
  The loop of \<^verbatim>\<open>ascii_draw_text\<close>: \<open>x\<close> and \<open>current_y\<close> are the cursor, the result
  is the returned \<^verbatim>\<open>x - start_x\<close> and the state the callback has left.
\<close>

fun ascii_draw_text_loop ::
  "char list \<Rightarrow> int \<Rightarrow> int \<Rightarrow> int \<Rightarrow> ('c, 'u, 's) ascii_pixel_fn \<Rightarrow> 'c \<Rightarrow> 'u \<Rightarrow> 's \<Rightarrow> (int \<times> 's) option"
where
  "ascii_draw_text_loop [] start_x x current_y pixel_fn color user_data s = None"
| "ascii_draw_text_loop (ch # ptr) start_x x current_y pixel_fn color user_data s =
     (if ch = CHR 0x00 then Some (wrap_int (x - start_x), s)
      else if ch = CHR 0x0A then
        ascii_draw_text_loop ptr start_x start_x (wrap_int (current_y + ASCII_FONT_HEIGHT))
          pixel_fn color user_data s
      else
        ascii_draw_text_loop ptr start_x (wrap_int (x + ASCII_FONT_WIDTH)) current_y
          pixel_fn color user_data (ascii_draw_char ch x current_y pixel_fn color user_data s))"

definition ascii_draw_text ::
  "char list \<Rightarrow> int \<Rightarrow> int \<Rightarrow> ('c, 'u, 's) ascii_pixel_fn \<Rightarrow> 'c \<Rightarrow> 'u \<Rightarrow> 's \<Rightarrow> (int \<times> 's) option"
where
  "ascii_draw_text text x y pixel_fn color user_data s =
     ascii_draw_text_loop text x x y pixel_fn color user_data s"

fun ascii_text_width_loop :: "char list \<Rightarrow> int \<Rightarrow> int \<Rightarrow> int option" where
  "ascii_text_width_loop [] width line_width = None"
| "ascii_text_width_loop (ch # ptr) width line_width =
     (if ch = CHR 0x00 then Some (if line_width > width then line_width else width)
      else if ch = CHR 0x0A then
        ascii_text_width_loop ptr (if line_width > width then line_width else width) 0
      else ascii_text_width_loop ptr width (wrap_int (line_width + ASCII_FONT_WIDTH)))"

definition ascii_text_width :: "char list \<Rightarrow> int option" where
  "ascii_text_width text = ascii_text_width_loop text 0 0"

fun ascii_text_height_loop :: "char list \<Rightarrow> int \<Rightarrow> int option" where
  "ascii_text_height_loop [] height = None"
| "ascii_text_height_loop (ch # ptr) height =
     (if ch = CHR 0x00 then Some height
      else if ch = CHR 0x0A then ascii_text_height_loop ptr (wrap_int (height + ASCII_FONT_HEIGHT))
      else ascii_text_height_loop ptr height)"

definition ascii_text_height :: "char list \<Rightarrow> int option" where
  "ascii_text_height text = ascii_text_height_loop text ASCII_FONT_HEIGHT"

section \<open>Drawing into an image buffer\<close>

text \<open>
  The buffer argument is a pointer: \<open>cells\<close> maps every index relative to it to the
  element stored there, within the caller's array or not, so that a store outside
  the array is visible; a negative index is an element before the array. \<open>writes\<close> records the stores in the order they happen, each
  with its index and value.
\<close>

record 'a pixel_buffer =
  cells :: "int \<Rightarrow> 'a"
  writes :: "(int \<times> 'a) list"

text \<open>The assignment \<^verbatim>\<open>buffer[i] = v\<close>.\<close>

definition buffer_write :: "int \<Rightarrow> 'a \<Rightarrow> 'a pixel_buffer \<Rightarrow> 'a pixel_buffer" where
  "buffer_write i v buffer =
     buffer\<lparr>cells := (cells buffer)(i := v), writes := writes buffer @ [(i, v)]\<rparr>"

text \<open>
  The inner loop of \<^verbatim>\<open>ascii_draw_char_to_mono_buffer\<close>; \<^verbatim>\<open>break\<close> returns the buffer
  as it is. The index \<^verbatim>\<open>py * buf_width + px\<close> is a product and a sum in \<^verbatim>\<open>int\<close>.
\<close>

function ascii_draw_char_to_mono_buffer_cols ::
  "uint8_t list \<Rightarrow> uint8_t pixel_buffer \<Rightarrow> int \<Rightarrow> int \<Rightarrow> ascii_mono_color_t \<Rightarrow> int \<Rightarrow> int \<Rightarrow> int
     \<Rightarrow> uint8_t pixel_buffer"
where
  "ascii_draw_char_to_mono_buffer_cols bitmap buffer buf_width x color row py col =
     (if col < ASCII_FONT_WIDTH then
        (let px = wrap_int (x + col) in
         if px \<ge> buf_width then buffer
         else ascii_draw_char_to_mono_buffer_cols bitmap
           (if uint (bitmap ! nat row) AND push_bit (nat (7 - col)) 1 \<noteq> 0
            then buffer_write (wrap_int (wrap_int (py * buf_width) + px)) color buffer
            else buffer)
           buf_width x color row py (col + 1))
      else buffer)"
  by pat_completeness auto
termination
  by (relation "measure (\<lambda>(bitmap, buffer, buf_width, x, color, row, py, col).
        nat (ASCII_FONT_WIDTH - col))") auto

function ascii_draw_char_to_mono_buffer_rows ::
  "uint8_t list \<Rightarrow> uint8_t pixel_buffer \<Rightarrow> int \<Rightarrow> int \<Rightarrow> int \<Rightarrow> int \<Rightarrow> ascii_mono_color_t \<Rightarrow> int
     \<Rightarrow> uint8_t pixel_buffer"
where
  "ascii_draw_char_to_mono_buffer_rows bitmap buffer buf_width buf_height x y color row =
     (if row < ASCII_FONT_HEIGHT then
        (let py = wrap_int (y + row) in
         if py \<ge> buf_height then buffer
         else ascii_draw_char_to_mono_buffer_rows bitmap
           (ascii_draw_char_to_mono_buffer_cols bitmap buffer buf_width x color row py 0)
           buf_width buf_height x y color (row + 1))
      else buffer)"
  by pat_completeness auto
termination
  by (relation "measure (\<lambda>(bitmap, buffer, buf_width, buf_height, x, y, color, row).
        nat (ASCII_FONT_HEIGHT - row))") auto

definition ascii_draw_char_to_mono_buffer ::
  "char \<Rightarrow> uint8_t pixel_buffer \<Rightarrow> int \<Rightarrow> int \<Rightarrow> int \<Rightarrow> int \<Rightarrow> ascii_mono_color_t
     \<Rightarrow> uint8_t pixel_buffer"
where
  "ascii_draw_char_to_mono_buffer c buffer buf_width buf_height x y color =
     (if x < 0 \<or> y < 0 \<or> x \<ge> buf_width \<or> y \<ge> buf_height then buffer
      else ascii_draw_char_to_mono_buffer_rows (ascii_get_char_bitmap c) buffer
             buf_width buf_height x y color 0)"

text \<open>The loops of \<^verbatim>\<open>ascii_draw_char_to_rgb565_buffer\<close>, written out as the source has them.\<close>

function ascii_draw_char_to_rgb565_buffer_cols ::
  "uint8_t list \<Rightarrow> uint16_t pixel_buffer \<Rightarrow> int \<Rightarrow> int \<Rightarrow> ascii_rgb565_color_t \<Rightarrow> int \<Rightarrow> int \<Rightarrow> int
     \<Rightarrow> uint16_t pixel_buffer"
where
  "ascii_draw_char_to_rgb565_buffer_cols bitmap buffer buf_width x color row py col =
     (if col < ASCII_FONT_WIDTH then
        (let px = wrap_int (x + col) in
         if px \<ge> buf_width then buffer
         else ascii_draw_char_to_rgb565_buffer_cols bitmap
           (if uint (bitmap ! nat row) AND push_bit (nat (7 - col)) 1 \<noteq> 0
            then buffer_write (wrap_int (wrap_int (py * buf_width) + px)) color buffer
            else buffer)
           buf_width x color row py (col + 1))
      else buffer)"
  by pat_completeness auto
termination
  by (relation "measure (\<lambda>(bitmap, buffer, buf_width, x, color, row, py, col).
        nat (ASCII_FONT_WIDTH - col))") auto

function ascii_draw_char_to_rgb565_buffer_rows ::
  "uint8_t list \<Rightarrow> uint16_t pixel_buffer \<Rightarrow> int \<Rightarrow> int \<Rightarrow> int \<Rightarrow> int \<Rightarrow> ascii_rgb565_color_t \<Rightarrow> int
     \<Rightarrow> uint16_t pixel_buffer"
where
  "ascii_draw_char_to_rgb565_buffer_rows bitmap buffer buf_width buf_height x y color row =
     (if row < ASCII_FONT_HEIGHT then
        (let py = wrap_int (y + row) in
         if py \<ge> buf_height then buffer
         else ascii_draw_char_to_rgb565_buffer_rows bitmap
           (ascii_draw_char_to_rgb565_buffer_cols bitmap buffer buf_width x color row py 0)
           buf_width buf_height x y color (row + 1))
      else buffer)"
  by pat_completeness auto
termination
  by (relation "measure (\<lambda>(bitmap, buffer, buf_width, buf_height, x, y, color, row).
        nat (ASCII_FONT_HEIGHT - row))") auto

definition ascii_draw_char_to_rgb565_buffer ::
  "char \<Rightarrow> uint16_t pixel_buffer \<Rightarrow> int \<Rightarrow> int \<Rightarrow> int \<Rightarrow> int \<Rightarrow> ascii_rgb565_color_t
     \<Rightarrow> uint16_t pixel_buffer"
where
  "ascii_draw_char_to_rgb565_buffer c buffer buf_width buf_height x y color =
     (if x < 0 \<or> y < 0 \<or> x \<ge> buf_width \<or> y \<ge> buf_height then buffer
      else ascii_draw_char_to_rgb565_buffer_rows (ascii_get_char_bitmap c) buffer
             buf_width buf_height x y color 0)"

section \<open>Reference definitions\<close>

definition blank_glyph :: "uint8_t list" where
  "blank_glyph = [0x00, 0x00, 0x00, 0x00, 0x00, 0x00, 0x00, 0x00]"

definition zero_glyph :: "uint8_t list" where
  "zero_glyph = [0x3E, 0x7F, 0x6B, 0x6B, 0x6B, 0x6B, 0x7F, 0x3E]"


text \<open>
  The C string held at a pointer: the characters before the first NUL. The memory
  holds a terminated string when a NUL occurs in it.
\<close>

definition c_string :: "char list \<Rightarrow> char list" where
  "c_string text = takeWhile (\<lambda>ch. ch \<noteq> CHR 0x00) text"

definition terminated :: "char list \<Rightarrow> bool" where
  "terminated text \<longleftrightarrow> CHR 0x00 \<in> set text"

text \<open>
  The lines of a string: the segments between line breaks. A string with \<open>n\<close> breaks
  has \<open>n + 1\<close> lines, the last of them empty when the string ends with a break.
\<close>

fun split_lines :: "char list \<Rightarrow> char list list" where
  "split_lines [] = [[]]"
| "split_lines (ch # s) =
     (if ch = CHR 0x0A then [] # split_lines s
      else (ch # hd (split_lines s)) # tl (split_lines s))"

definition line_width :: "char list \<Rightarrow> int" where
  "line_width l = ASCII_FONT_WIDTH * int (length l)"


text \<open>
  The set bits of a glyph, as (row, column) pairs: column \<open>cl\<close> of row \<open>r\<close> is bit
  \<open>7 - cl\<close> of byte \<open>r\<close>. The list runs through the rows from the top and, within a
  row, through the columns from the left.
\<close>

definition glyph_pixels :: "uint8_t list \<Rightarrow> (nat \<times> nat) list" where
  "glyph_pixels bitmap =
     [(r, cl). r \<leftarrow> [0..<nat ASCII_FONT_HEIGHT], cl \<leftarrow> [0..<nat ASCII_FONT_WIDTH],
               bit (bitmap ! r) (7 - cl)]"

text \<open>Row-major order on (row, column) pairs.\<close>

definition row_major :: "nat \<times> nat \<Rightarrow> nat \<times> nat \<Rightarrow> bool" where
  "row_major p q \<longleftrightarrow> fst p < fst q \<or> (fst p = fst q \<and> snd p < snd q)"

text \<open>A callback that only records its calls, in order.\<close>

definition record_call :: "('c, 'u, (int \<times> int \<times> 'c \<times> 'u) list) ascii_pixel_fn" where
  "record_call px py color user_data calls = calls @ [(px, py, color, user_data)]"


text \<open>
  The columns and rows of a glyph drawn at \<open>(x, y)\<close> that a buffer draw reaches: it
  goes through them from 0 on and stops at the first whose \<^verbatim>\<open>int\<close> coordinate is not
  below the buffer's width or height.
\<close>

definition drawn_columns :: "int \<Rightarrow> int \<Rightarrow> nat list" where
  "drawn_columns buf_width x =
     takeWhile (\<lambda>cl. wrap_int (x + int cl) < buf_width) [0..<nat ASCII_FONT_WIDTH]"

definition drawn_rows :: "int \<Rightarrow> int \<Rightarrow> nat list" where
  "drawn_rows buf_height y =
     takeWhile (\<lambda>r. wrap_int (y + int r) < buf_height) [0..<nat ASCII_FONT_HEIGHT]"

text \<open>The set bits of a glyph in the rows and columns reached, in row-major order.\<close>

definition clipped_pixels :: "uint8_t list \<Rightarrow> int \<Rightarrow> int \<Rightarrow> int \<Rightarrow> int \<Rightarrow> (nat \<times> nat) list" where
  "clipped_pixels bitmap buf_width buf_height x y =
     [(r, cl). r \<leftarrow> drawn_rows buf_height y, cl \<leftarrow> drawn_columns buf_width x,
               bit (bitmap ! r) (7 - cl)]"

text \<open>
  The buffer index the code computes for the bit at row \<open>fst p\<close> and column \<open>snd p\<close>:
  \<^verbatim>\<open>py * buf_width + px\<close> in \<^verbatim>\<open>int\<close>, with \<^verbatim>\<open>py = y + row\<close> and \<^verbatim>\<open>px = x + col\<close>.
\<close>

definition cell_index :: "int \<Rightarrow> int \<Rightarrow> int \<Rightarrow> nat \<times> nat \<Rightarrow> int" where
  "cell_index buf_width x y p =
     wrap_int (wrap_int (wrap_int (y + int (fst p)) * buf_width) + wrap_int (x + int (snd p)))"

text \<open>
  The bits a buffer draw stores, in order: none when the origin fails the bounds
  check, the clipped set bits of the character's glyph otherwise.
\<close>

definition drawn_pixels :: "char \<Rightarrow> int \<Rightarrow> int \<Rightarrow> int \<Rightarrow> int \<Rightarrow> (nat \<times> nat) list" where
  "drawn_pixels c buf_width buf_height x y =
     (if x < 0 \<or> y < 0 \<or> x \<ge> buf_width \<or> y \<ge> buf_height then []
      else clipped_pixels (ascii_get_char_bitmap c) buf_width buf_height x y)"

text \<open>The stores made between two states of a buffer.\<close>

definition new_writes :: "'a pixel_buffer \<Rightarrow> 'a pixel_buffer \<Rightarrow> (int \<times> 'a) list" where
  "new_writes before after = drop (length (writes before)) (writes after)"

text \<open>A buffer of a given content on which nothing has been stored yet.\<close>

definition fresh_buffer :: "(int \<Rightarrow> 'a) \<Rightarrow> 'a pixel_buffer" where
  "fresh_buffer content = \<lparr>cells = content, writes = []\<rparr>"

text \<open>The cell \<open>(px, py)\<close> lies under a set bit of the glyph drawn at \<open>(x, y)\<close>.\<close>

definition glyph_bit_at :: "uint8_t list \<Rightarrow> int \<Rightarrow> int \<Rightarrow> int \<Rightarrow> int \<Rightarrow> bool" where
  "glyph_bit_at bitmap x y px py \<longleftrightarrow>
     x \<le> px \<and> y \<le> py \<and> (nat (py - y), nat (px - x)) \<in> set (glyph_pixels bitmap)"

text \<open>
  A buffer whose cells all have an \<^verbatim>\<open>int\<close> index: its width and height are values of
  \<^verbatim>\<open>int\<close> and it has at most \<open>INT_MAX + 1\<close> cells.
\<close>

definition int_indexed :: "int \<Rightarrow> int \<Rightarrow> bool" where
  "int_indexed buf_width buf_height \<longleftrightarrow>
     buf_width \<le> INT_MAX \<and> buf_height \<le> INT_MAX \<and> buf_width * buf_height \<le> INT_MAX + 1"

section \<open>Arithmetic in \<^verbatim>\<open>int\<close>\<close>

lemma wrap_int_id: "INT_MIN \<le> v \<Longrightarrow> v \<le> INT_MAX \<Longrightarrow> wrap_int v = v"
  by (simp add: wrap_int_def INT_MIN_def INT_MAX_def)

lemma wrap_int_range: "INT_MIN \<le> wrap_int v \<and> wrap_int v \<le> INT_MAX"
proof -
  have "0 \<le> (v + 2147483648) mod 4294967296" "(v + 2147483648) mod 4294967296 < 4294967296"
    by simp_all
  then show ?thesis
    by (simp add: wrap_int_def INT_MIN_def INT_MAX_def)
qed

lemma wrap_int_add_left: "wrap_int (wrap_int a + b) = wrap_int (a + b)"
proof -
  have "wrap_int a + b + 2147483648 = (a + 2147483648) mod 4294967296 + b"
    by (simp add: wrap_int_def)
  then have "(wrap_int a + b + 2147483648) mod 4294967296 =
      ((a + 2147483648) mod 4294967296 + b) mod 4294967296"
    by (rule arg_cong)
  also have "\<dots> = (a + 2147483648 + b) mod 4294967296"
    by (rule mod_add_left_eq)
  also have "a + 2147483648 + b = a + b + 2147483648"
    by simp
  finally have "(wrap_int a + b + 2147483648) mod 4294967296 = (a + b + 2147483648) mod 4294967296" .
  then show ?thesis
    unfolding wrap_int_def [of "wrap_int a + b"] wrap_int_def [of "a + b"] by (rule arg_cong)
qed

lemma wrap_int_add_right: "wrap_int (a + wrap_int b) = wrap_int (a + b)"
  using wrap_int_add_left [of b a] by (simp add: add.commute)

lemma wrap_int_diff_left: "wrap_int (wrap_int a - b) = wrap_int (a - b)"
  using wrap_int_add_left [of a "- b"] by simp

lemma wrap_int_small [simp]: "wrap_int 0 = 0" "wrap_int 8 = 8"
  by (simp_all add: wrap_int_def)

section \<open>The glyph table\<close>

lemma ascii_font_shape:
  "ascii_font = replicate 16 blank_glyph @ zero_glyph # replicate 78 blank_glyph"
  unfolding ascii_font_def blank_glyph_def zero_glyph_def
  by (simp add: numeral_eq_Suc)

lemma length_ascii_font: "length ascii_font = 95"
  by (simp add: ascii_font_shape)

lemma length_ascii_font_count: "int (length ascii_font) = ASCII_CHAR_COUNT"
  by (simp add: length_ascii_font ASCII_CHAR_COUNT_def ASCII_LAST_CHAR_def ASCII_FIRST_CHAR_def)

lemma ascii_font_rows: "g \<in> set ascii_font \<Longrightarrow> int (length g) = ASCII_FONT_HEIGHT"
  by (auto simp: ascii_font_shape blank_glyph_def zero_glyph_def ASCII_FONT_HEIGHT_def)

lemma ascii_font_nth:
  assumes "i < 95"
  shows "ascii_font ! i = (if i = 16 then zero_glyph else blank_glyph)"
proof -
  consider "i < 16" | "i = 16" | "16 < i"
    by linarith
  then show ?thesis
  proof cases
    case 1
    then show ?thesis
      by (simp add: ascii_font_shape nth_append)
  next
    case 2
    then show ?thesis
      by (simp add: ascii_font_shape nth_append)
  next
    case 3
    define k where "k = i - 17"
    have k: "i = 17 + k" "k < 78"
      using 3 assms by (simp_all add: k_def)
    show ?thesis
      unfolding k(1) using k(2)
      by (simp add: ascii_font_shape nth_append)
  qed
qed

section \<open>Glyph lookup\<close>

lemma of_char_int_range: "0 \<le> (of_char c :: int) \<and> (of_char c :: int) < 256"
proof -
  have "0 \<le> x mod 256 \<and> x mod 256 < 256" for x :: int
    by simp
  from this [of "of_char c"] show ?thesis
    by (simp only: of_char_mod_256)
qed

lemma get_char_bitmap_at_outside:
  "c < 32 \<or> 127 \<le> c \<Longrightarrow> get_char_bitmap_at c = blank_glyph"
  by (auto simp: get_char_bitmap_at_def ASCII_FIRST_CHAR_def ASCII_LAST_CHAR_def ascii_font_nth)

lemma get_char_bitmap_at_inside:
  assumes "32 \<le> c" "c < 127"
  shows "get_char_bitmap_at c = (if c = 48 then zero_glyph else blank_glyph)"
proof -
  have "nat (c - 32) < 95" "nat (c - 32) = 16 \<longleftrightarrow> c = 48"
    using assms by auto
  then show ?thesis
    using assms
    by (simp add: get_char_bitmap_at_def ASCII_FIRST_CHAR_def ASCII_LAST_CHAR_def ascii_font_nth)
qed

lemma get_char_bitmap_at_cases:
  "get_char_bitmap_at c = (if c = 48 then zero_glyph else blank_glyph)"
proof (cases "32 \<le> c \<and> c < 127")
  case True
  then show ?thesis
    by (simp add: get_char_bitmap_at_inside)
next
  case False
  then have "c < 32 \<or> 127 \<le> c"
    by auto
  then show ?thesis
    by (auto simp: get_char_bitmap_at_outside)
qed

lemma uchar_to_int_eq_48:
  "uchar_to_int c = 48 \<longleftrightarrow> char_to_int c = 48"
  using of_char_int_range [of c]
  by (auto simp: uchar_to_int_def char_to_int_def)

lemma ascii_get_char_bitmap_signedness:
  "ascii_get_char_bitmap_unsigned c = ascii_get_char_bitmap c"
  by (simp add: ascii_get_char_bitmap_unsigned_def ascii_get_char_bitmap_def
      get_char_bitmap_at_cases uchar_to_int_eq_48)

lemma char_to_int_eq_48: "char_to_int c = 48 \<longleftrightarrow> c = CHR ''0''"
proof
  assume "char_to_int c = 48"
  then have "(of_char c :: int) = of_char CHR ''0''"
    using of_char_int_range [of c]
    by (auto simp: char_to_int_def split: if_splits)
  then show "c = CHR ''0''"
    by (rule of_char_eqI)
next
  assume "c = CHR ''0''"
  then show "char_to_int c = 48"
    by (simp add: char_to_int_def)
qed

lemma ascii_get_char_bitmap_cases:
  "ascii_get_char_bitmap c = (if c = CHR ''0'' then zero_glyph else blank_glyph)"
  by (simp add: ascii_get_char_bitmap_def get_char_bitmap_at_cases char_to_int_eq_48)

lemma length_ascii_get_char_bitmap: "length (ascii_get_char_bitmap c) = 8"
  by (simp add: ascii_get_char_bitmap_cases zero_glyph_def blank_glyph_def)

text \<open>
  Claim C3. A character whose code lies outside \<open>[ASCII_FIRST_CHAR, ASCII_LAST_CHAR)\<close>
  gets the glyph at index 0 of the table, which is the glyph of the character
  \<open>ASCII_FIRST_CHAR\<close> (space); a character whose code lies inside gets the table entry
  at index \<open>code - ASCII_FIRST_CHAR\<close>, an index within the table. The function is a
  pure function of the constant table, and the result is the same whether plain
  \<^verbatim>\<open>char\<close> is signed or unsigned.
\<close>

theorem ascii_get_char_bitmap_lookup:
  "(char_to_int c < ASCII_FIRST_CHAR \<or> char_to_int c \<ge> ASCII_LAST_CHAR \<longrightarrow>
      ascii_get_char_bitmap c = ascii_font ! 0 \<and>
      ascii_get_char_bitmap c = ascii_get_char_bitmap (char_of ASCII_FIRST_CHAR)) \<and>
   (ASCII_FIRST_CHAR \<le> char_to_int c \<and> char_to_int c < ASCII_LAST_CHAR \<longrightarrow>
      nat (char_to_int c - ASCII_FIRST_CHAR) < length ascii_font \<and>
      ascii_get_char_bitmap c = ascii_font ! nat (char_to_int c - ASCII_FIRST_CHAR)) \<and>
   (uchar_to_int c < ASCII_FIRST_CHAR \<or> uchar_to_int c \<ge> ASCII_LAST_CHAR \<longrightarrow>
      ascii_get_char_bitmap_unsigned c = ascii_font ! 0 \<and>
      ascii_get_char_bitmap_unsigned c = ascii_get_char_bitmap_unsigned (char_of ASCII_FIRST_CHAR)) \<and>
   (ASCII_FIRST_CHAR \<le> uchar_to_int c \<and> uchar_to_int c < ASCII_LAST_CHAR \<longrightarrow>
      nat (uchar_to_int c - ASCII_FIRST_CHAR) < length ascii_font \<and>
      ascii_get_char_bitmap_unsigned c = ascii_font ! nat (uchar_to_int c - ASCII_FIRST_CHAR))"
proof -
  have first: "char_to_int (char_of (32::int)) = 32" "uchar_to_int (char_of (32::int)) = 32"
    by (simp_all add: char_to_int_def uchar_to_int_def)
  have at32: "get_char_bitmap_at 32 = ascii_font ! 0"
    by (simp add: get_char_bitmap_at_def ASCII_FIRST_CHAR_def ASCII_LAST_CHAR_def)
  have inside: "nat (k - ASCII_FIRST_CHAR) < length ascii_font"
    if "ASCII_FIRST_CHAR \<le> k" "k < ASCII_LAST_CHAR" for k
    using that by (simp add: length_ascii_font ASCII_FIRST_CHAR_def ASCII_LAST_CHAR_def)
  show ?thesis
    using inside [of "char_to_int c"] inside [of "uchar_to_int c"]
    by (auto simp: ascii_get_char_bitmap_def ascii_get_char_bitmap_unsigned_def first at32
        get_char_bitmap_at_def ASCII_FIRST_CHAR_def ASCII_LAST_CHAR_def)
qed

theorem ascii_get_char_bitmap_lookup_witness:
  "ascii_get_char_bitmap (CHR 0x7F) = ascii_font ! 0 \<and>
   ascii_get_char_bitmap (CHR ''0'') = ascii_font ! 16 \<and>
   ascii_get_char_bitmap_unsigned (CHR 0xE9) = ascii_font ! 0 \<and>
   ascii_get_char_bitmap_unsigned (CHR ''A'') = ascii_font ! 33"
  using ascii_get_char_bitmap_lookup [of "CHR 0x7F"] ascii_get_char_bitmap_lookup [of "CHR ''0''"]
    ascii_get_char_bitmap_lookup [of "CHR 0xE9"] ascii_get_char_bitmap_lookup [of "CHR ''A''"]
  by (simp add: char_to_int_def uchar_to_int_def ASCII_FIRST_CHAR_def ASCII_LAST_CHAR_def)

section \<open>Text metrics and text drawing\<close>

lemma terminated_decompose:
  assumes "terminated text"
  obtains rest where "text = c_string text @ CHR 0x00 # rest"
proof -
  have "text = takeWhile (\<lambda>ch. ch \<noteq> CHR 0x00) text @ dropWhile (\<lambda>ch. ch \<noteq> CHR 0x00) text"
    by simp
  moreover have "dropWhile (\<lambda>ch. ch \<noteq> CHR 0x00) text \<noteq> []"
    using assms by (auto simp: terminated_def dropWhile_eq_Nil_conv)
  moreover have "hd (dropWhile (\<lambda>ch. ch \<noteq> CHR 0x00) text) = CHR 0x00"
    using hd_dropWhile [of "\<lambda>ch. ch \<noteq> CHR 0x00" "text"] calculation(2) by simp
  ultimately have "text = c_string text @ CHR 0x00 # tl (dropWhile (\<lambda>ch. ch \<noteq> CHR 0x00) text)"
    by (metis c_string_def list.collapse)
  then show ?thesis
    by (rule that)
qed

lemma c_string_no_nul: "CHR 0x00 \<notin> set (c_string text)"
  by (auto simp: c_string_def dest: set_takeWhileD)

lemma c_string_append_nul:
  "CHR 0x00 \<notin> set s \<Longrightarrow> c_string (s @ CHR 0x00 # rest) = s"
  unfolding c_string_def by (induction s) auto

lemma split_lines_not_Nil [simp]: "split_lines s \<noteq> []"
  by (induction s) auto

lemma length_split_lines: "length (split_lines s) = Suc (count_list s (CHR 0x0A))"
  by (induction s) auto

lemma split_lines_no_break: "CHR 0x0A \<notin> set s \<Longrightarrow> split_lines s = [s]"
  by (induction s) auto

text \<open>
  \<open>split_lines\<close> cuts at the line breaks and nowhere else: no line holds a break, and
  the lines put together again with one break between neighbours give the string.
\<close>

lemma split_lines_no_break_inside: "l \<in> set (split_lines s) \<Longrightarrow> CHR 0x0A \<notin> set l"
proof (induction s arbitrary: l)
  case Nil
  then show ?case
    by simp
next
  case (Cons ch s)
  obtain l0 ls where lines: "split_lines s = l0 # ls"
    by (cases "split_lines s") auto
  show ?case
    using Cons.prems Cons.IH [of l0] Cons.IH [of l]
    by (auto simp: lines split: if_splits)
qed

lemma split_lines_join:
  "foldr (\<lambda>l rest. l @ CHR 0x0A # rest) (butlast (split_lines s)) (last (split_lines s)) = s"
proof (induction s)
  case Nil
  then show ?case
    by simp
next
  case (Cons ch s)
  obtain l0 ls where lines: "split_lines s = l0 # ls"
    by (cases "split_lines s") auto
  show ?case
    using Cons.IH by (cases ls) (auto simp: lines)
qed

text \<open>The last line is what follows the last line break.\<close>

lemma last_split_lines:
  "last (split_lines s) = rev (takeWhile (\<lambda>ch. ch \<noteq> CHR 0x0A) (rev s))"
proof (induction s)
  case Nil
  then show ?case
    by simp
next
  case (Cons ch s)
  obtain l0 ls where lines: "split_lines s = l0 # ls"
    by (cases "split_lines s") auto
  show ?case
  proof (cases "CHR 0x0A \<in> set s")
    case True
    then have "ls \<noteq> []"
      using length_split_lines [of s] lines
      by (cases ls) (auto simp: count_list_0_iff)
    then show ?thesis
      using True Cons.IH by (auto simp: lines takeWhile_append)
  next
    case False
    then have "takeWhile (\<lambda>ch. ch \<noteq> CHR 0x0A) (rev s) = rev s"
      by (auto simp: takeWhile_eq_all_conv)
    then show ?thesis
      using False by (auto simp: split_lines_no_break takeWhile_append)
  qed
qed

subsection \<open>Long inputs\<close>

lemma terminated_append_nul: "terminated (s @ CHR 0x00 # rest)"
  by (simp add: terminated_def)

lemma count_list_replicate: "count_list (replicate n a) a = n"
  by (induction n) simp_all

lemma line_width_replicate: "line_width (replicate n a) = 8 * int n"
  by (simp add: line_width_def ASCII_FONT_WIDTH_def)

lemma wrap_int_2_31: "wrap_int 2147483648 = - 2147483648"
  by (simp add: wrap_int_def)

subsection \<open>Height\<close>

text \<open>
  The loop of \<^verbatim>\<open>ascii_text_height\<close>, started with the \<^verbatim>\<open>int\<close> value of \<open>v\<close>: each line
  break adds \<open>ASCII_FONT_HEIGHT\<close> in \<^verbatim>\<open>int\<close>.
\<close>

lemma ascii_text_height_loop_scan:
  "CHR 0x00 \<notin> set s \<Longrightarrow>
   ascii_text_height_loop (s @ CHR 0x00 # rest) (wrap_int v) =
     Some (wrap_int (v + ASCII_FONT_HEIGHT * int (count_list s (CHR 0x0A))))"
proof (induction s arbitrary: v)
  case Nil
  then show ?case
    by simp
next
  case (Cons ch s)
  then have no_nul: "CHR 0x00 \<notin> set s" and ch: "ch \<noteq> CHR 0x00"
    by auto
  show ?case
  proof (cases "ch = CHR 0x0A")
    case True
    have "ascii_text_height_loop ((ch # s) @ CHR 0x00 # rest) (wrap_int v) =
        ascii_text_height_loop (s @ CHR 0x00 # rest) (wrap_int (v + ASCII_FONT_HEIGHT))"
      using True by (simp add: wrap_int_add_left)
    also have "\<dots> = Some (wrap_int (v + ASCII_FONT_HEIGHT
        + ASCII_FONT_HEIGHT * int (count_list s (CHR 0x0A))))"
      by (rule Cons.IH [OF no_nul])
    finally show ?thesis
      using True by (simp add: algebra_simps)
  next
    case False
    then show ?thesis
      using ch Cons.IH [OF no_nul, of v] by simp
  qed
qed

lemma ascii_text_height_string:
  "CHR 0x00 \<notin> set s \<Longrightarrow>
   ascii_text_height (s @ CHR 0x00 # rest) =
     Some (wrap_int (ASCII_FONT_HEIGHT + ASCII_FONT_HEIGHT * int (count_list s (CHR 0x0A))))"
  using ascii_text_height_loop_scan [of s rest ASCII_FONT_HEIGHT]
  by (simp add: ascii_text_height_def ASCII_FONT_HEIGHT_def)

text \<open>
  Claim C6, as stated, fails on a string of \<open>2^28 - 1\<close> line breaks: the claimed
  height \<open>8 + 8 * (2^28 - 1)\<close> is \<open>2^31\<close>, which is no \<^verbatim>\<open>int\<close>, and the function returns
  \<open>- 2^31\<close>.
\<close>

theorem ascii_text_height_counterexample:
  "terminated (replicate 268435455 (CHR 0x0A) @ [CHR 0x00]) \<and>
   ascii_text_height (replicate 268435455 (CHR 0x0A) @ [CHR 0x00]) = Some (- 2147483648) \<and>
   ASCII_FONT_HEIGHT + ASCII_FONT_HEIGHT
     * int (count_list (c_string (replicate 268435455 (CHR 0x0A) @ [CHR 0x00])) (CHR 0x0A)) =
     2147483648"
proof -
  let ?s = "replicate 268435455 (CHR 0x0A)"
  have no_nul: "CHR 0x00 \<notin> set ?s"
    by simp
  have count: "count_list ?s (CHR 0x0A) = 268435455"
    by (rule count_list_replicate)
  have claimed: "ASCII_FONT_HEIGHT + ASCII_FONT_HEIGHT * int (count_list ?s (CHR 0x0A)) = 2147483648"
    unfolding count by (simp add: ASCII_FONT_HEIGHT_def)
  have "ascii_text_height (?s @ [CHR 0x00]) = Some (wrap_int 2147483648)"
    using ascii_text_height_string [OF no_nul, of "[]"] unfolding claimed .
  then have returned: "ascii_text_height (?s @ [CHR 0x00]) = Some (- 2147483648)"
    unfolding wrap_int_2_31 .
  have string: "c_string (?s @ [CHR 0x00]) = ?s"
    using no_nul by (rule c_string_append_nul)
  show ?thesis
    unfolding string using returned claimed terminated_append_nul [of ?s "[]"] by blast
qed

text \<open>
  Claim C6, amended. On a terminated string \<^verbatim>\<open>ascii_text_height\<close> returns, and its
  result is \<open>ASCII_FONT_HEIGHT\<close> plus \<open>ASCII_FONT_HEIGHT\<close> for each line break of the
  string, whatever follows the last break, reduced to \<^verbatim>\<open>int\<close>. Whenever that height is
  at most \<open>INT_MAX\<close>, the result is the height itself, \<open>ASCII_FONT_HEIGHT\<close> per line of
  the string.
\<close>

theorem ascii_text_height_counts_breaks:
  assumes "terminated text"
  shows "ascii_text_height text =
           Some (wrap_int (ASCII_FONT_HEIGHT
             + ASCII_FONT_HEIGHT * int (count_list (c_string text) (CHR 0x0A)))) \<and>
         (ASCII_FONT_HEIGHT + ASCII_FONT_HEIGHT * int (count_list (c_string text) (CHR 0x0A))
            \<le> INT_MAX \<longrightarrow>
          ascii_text_height text =
            Some (ASCII_FONT_HEIGHT + ASCII_FONT_HEIGHT * int (count_list (c_string text) (CHR 0x0A))) \<and>
          ascii_text_height text =
            Some (ASCII_FONT_HEIGHT * int (length (split_lines (c_string text)))))"
proof -
  obtain rest where split: "text = c_string text @ CHR 0x00 # rest"
    using assms by (rule terminated_decompose)
  let ?h = "ASCII_FONT_HEIGHT + ASCII_FONT_HEIGHT * int (count_list (c_string text) (CHR 0x0A))"
  have "ascii_text_height (c_string text @ CHR 0x00 # rest) = Some (wrap_int ?h)"
    by (rule ascii_text_height_string) (rule c_string_no_nul)
  then have first: "ascii_text_height text = Some (wrap_int ?h)"
    using split by simp
  have "INT_MIN \<le> ?h"
    by (simp add: ASCII_FONT_HEIGHT_def INT_MIN_def)
  then have "wrap_int ?h = ?h" if "?h \<le> INT_MAX"
    using that by (rule wrap_int_id)
  moreover have "?h = ASCII_FONT_HEIGHT * int (length (split_lines (c_string text)))"
    by (simp add: length_split_lines algebra_simps)
  ultimately show ?thesis
    using first by auto
qed

theorem ascii_text_height_counts_breaks_witness:
  "terminated [CHR 0x00] \<and> ascii_text_height [CHR 0x00] = Some 8 \<and>
   terminated (''A\<newline>B\<newline>C'' @ [CHR 0x00]) \<and>
   ascii_text_height (''A\<newline>B\<newline>C'' @ [CHR 0x00]) = Some (3 * ASCII_FONT_HEIGHT) \<and>
   ascii_text_height (''A\<newline>'' @ [CHR 0x00]) = Some 16"
  using ascii_text_height_counts_breaks [of "[CHR 0x00]"]
    ascii_text_height_counts_breaks [of "''A\<newline>B\<newline>C'' @ [CHR 0x00]"]
    ascii_text_height_counts_breaks [of "''A\<newline>'' @ [CHR 0x00]"]
  by (simp add: terminated_def c_string_def ASCII_FONT_HEIGHT_def INT_MAX_def wrap_int_def)

subsection \<open>Width\<close>

text \<open>
  The loop invariant of \<^verbatim>\<open>ascii_text_width\<close>: with \<open>width\<close> the maximum so far and
  the \<^verbatim>\<open>int\<close> value of \<open>v\<close> the width of the line so far, the loop returns the maximum
  of \<open>width\<close>, of the first remaining line extended by \<open>v\<close>, and of the lines after
  it, every line width being reduced to \<^verbatim>\<open>int\<close>.
\<close>

lemma ascii_text_width_loop_scan:
  "CHR 0x00 \<notin> set s \<Longrightarrow>
   ascii_text_width_loop (s @ CHR 0x00 # rest) width (wrap_int v) =
     Some (max width (Max (set (wrap_int (v + line_width (hd (split_lines s)))
                                  # map (\<lambda>l. wrap_int (line_width l)) (tl (split_lines s))))))"
proof (induction s arbitrary: width v)
  case Nil
  then show ?case
    by (simp add: line_width_def max_def)
next
  case (Cons ch s)
  then have no_nul: "CHR 0x00 \<notin> set s" and ch: "ch \<noteq> CHR 0x00"
    by auto
  obtain l ls where lines: "split_lines s = l # ls"
    by (cases "split_lines s") auto
  show ?case
  proof (cases "ch = CHR 0x0A")
    case True
    have "ascii_text_width_loop ((ch # s) @ CHR 0x00 # rest) width (wrap_int v) =
            ascii_text_width_loop (s @ CHR 0x00 # rest) (max (wrap_int v) width) (wrap_int 0)"
      using True by (simp add: max_def)
    also have "\<dots> = Some (max (max (wrap_int v) width)
        (Max (set (wrap_int (line_width l) # map (\<lambda>l. wrap_int (line_width l)) ls))))"
      using Cons.IH [OF no_nul, of "max (wrap_int v) width" 0] by (simp add: lines)
    finally show ?thesis
      using True by (simp add: lines line_width_def max.assoc max.left_commute max.commute)
  next
    case False
    have "ascii_text_width_loop ((ch # s) @ CHR 0x00 # rest) width (wrap_int v) =
            ascii_text_width_loop (s @ CHR 0x00 # rest) width (wrap_int (v + ASCII_FONT_WIDTH))"
      using False ch by (simp add: wrap_int_add_left)
    also have "\<dots> = Some (max width (Max (set (wrap_int (v + ASCII_FONT_WIDTH + line_width l)
        # map (\<lambda>l. wrap_int (line_width l)) ls))))"
      using Cons.IH [OF no_nul, of width "v + ASCII_FONT_WIDTH"] by (simp add: lines)
    finally show ?thesis
      using False by (simp add: lines line_width_def algebra_simps)
  qed
qed

lemma ascii_text_width_string:
  "CHR 0x00 \<notin> set s \<Longrightarrow>
   ascii_text_width (s @ CHR 0x00 # rest) =
     Some (Max (set (0 # map (\<lambda>l. wrap_int (line_width l)) (split_lines s))))"
proof -
  assume no_nul: "CHR 0x00 \<notin> set s"
  obtain l ls where lines: "split_lines s = l # ls"
    by (cases "split_lines s") auto
  show ?thesis
    using ascii_text_width_loop_scan [OF no_nul, of rest 0 0]
    by (simp add: ascii_text_width_def lines)
qed

lemma line_width_nonneg: "0 \<le> line_width l"
  by (simp add: line_width_def ASCII_FONT_WIDTH_def)

lemma Max_line_widths_nonneg: "0 \<le> Max (set (map line_width (split_lines s)))"
proof -
  obtain l ls where lines: "split_lines s = l # ls"
    by (cases "split_lines s") auto
  have "line_width l \<le> Max (set (map line_width (split_lines s)))"
    by (simp add: lines)
  then show ?thesis
    using line_width_nonneg [of l] by linarith
qed

text \<open>
  Claim C5, as stated, fails on a single line of \<open>2^28\<close> characters: its width
  \<open>8 * 2^28\<close> is \<open>2^31\<close>, which is no \<^verbatim>\<open>int\<close>; the running line width has become
  negative and the function returns 0.
\<close>

theorem ascii_text_width_counterexample:
  "terminated (replicate 268435456 (CHR ''A'') @ [CHR 0x00]) \<and>
   ascii_text_width (replicate 268435456 (CHR ''A'') @ [CHR 0x00]) = Some 0 \<and>
   Max (set (map line_width
     (split_lines (c_string (replicate 268435456 (CHR ''A'') @ [CHR 0x00]))))) = 2147483648"
proof -
  let ?s = "replicate 268435456 (CHR ''A'')"
  have no_nul: "CHR 0x00 \<notin> set ?s" and no_break: "CHR 0x0A \<notin> set ?s"
    by simp_all
  have lines: "split_lines ?s = [?s]"
    using no_break by (rule split_lines_no_break)
  have width: "line_width ?s = 2147483648"
    unfolding line_width_replicate by simp
  have "ascii_text_width (?s @ [CHR 0x00]) =
      Some (Max (set (0 # map (\<lambda>l. wrap_int (line_width l)) (split_lines ?s))))"
    using no_nul by (rule ascii_text_width_string)
  also have "\<dots> = Some 0"
    unfolding lines by (simp add: width wrap_int_2_31)
  finally have returned: "ascii_text_width (?s @ [CHR 0x00]) = Some 0" .
  have string: "c_string (?s @ [CHR 0x00]) = ?s"
    using no_nul by (rule c_string_append_nul)
  have claimed: "Max (set (map line_width (split_lines ?s))) = 2147483648"
    unfolding lines by (simp add: width)
  show ?thesis
    unfolding string using returned claimed terminated_append_nul [of ?s "[]"] by blast
qed

text \<open>
  Claim C5, amended. On a terminated string \<^verbatim>\<open>ascii_text_width\<close> returns, and its
  result is the maximum of 0 and of the widths of all lines of the string, each
  reduced to \<^verbatim>\<open>int\<close>, where the width of a line is \<open>ASCII_FONT_WIDTH\<close> pixels for each
  of its characters. Whenever no line is wider than \<open>INT_MAX\<close>, the result is the
  maximum line width.
\<close>

theorem ascii_text_width_max_line:
  assumes "terminated text"
  shows "ascii_text_width text =
           Some (Max (set (0 # map (\<lambda>l. wrap_int (line_width l)) (split_lines (c_string text))))) \<and>
         ((\<forall>l \<in> set (split_lines (c_string text)). line_width l \<le> INT_MAX) \<longrightarrow>
          ascii_text_width text = Some (Max (set (map line_width (split_lines (c_string text))))))"
proof -
  obtain rest where split: "text = c_string text @ CHR 0x00 # rest"
    using assms by (rule terminated_decompose)
  have "ascii_text_width (c_string text @ CHR 0x00 # rest) =
      Some (Max (set (0 # map (\<lambda>l. wrap_int (line_width l)) (split_lines (c_string text)))))"
    by (rule ascii_text_width_string) (rule c_string_no_nul)
  then have first: "ascii_text_width text =
      Some (Max (set (0 # map (\<lambda>l. wrap_int (line_width l)) (split_lines (c_string text)))))"
    using split by simp
  have bounded: "ascii_text_width text = Some (Max (set (map line_width (split_lines (c_string text)))))"
    if fits: "\<forall>l \<in> set (split_lines (c_string text)). line_width l \<le> INT_MAX"
  proof -
    have "wrap_int (line_width l) = line_width l" if "l \<in> set (split_lines (c_string text))" for l
    proof (rule wrap_int_id)
      show "INT_MIN \<le> line_width l"
        using line_width_nonneg [of l] by (simp add: INT_MIN_def)
      show "line_width l \<le> INT_MAX"
        using fits that by blast
    qed
    then have "map (\<lambda>l. wrap_int (line_width l)) (split_lines (c_string text)) =
        map line_width (split_lines (c_string text))"
      by simp
    then have "ascii_text_width text =
        Some (Max (set (0 # map line_width (split_lines (c_string text)))))"
      using first by simp
    moreover have "Max (set (0 # map line_width (split_lines (c_string text)))) =
        Max (set (map line_width (split_lines (c_string text))))"
      using Max_line_widths_nonneg [of "c_string text"] by (simp add: max_def)
    ultimately show ?thesis
      by simp
  qed
  show ?thesis
    using first bounded by blast
qed

theorem ascii_text_width_max_line_witness:
  "terminated [CHR 0x00] \<and> ascii_text_width [CHR 0x00] = Some 0 \<and>
   terminated (''AB'' @ [CHR 0x00]) \<and>
   ascii_text_width (''AB'' @ [CHR 0x00]) = Some (2 * ASCII_FONT_WIDTH) \<and>
   terminated (''A\<newline>BB'' @ [CHR 0x00]) \<and>
   ascii_text_width (''A\<newline>BB'' @ [CHR 0x00]) = Some (2 * ASCII_FONT_WIDTH) \<and>
   ascii_text_width (''ABC\<newline>D'' @ [CHR 0x00]) = Some 24"
  using ascii_text_width_max_line [of "[CHR 0x00]"]
    ascii_text_width_max_line [of "''AB'' @ [CHR 0x00]"]
    ascii_text_width_max_line [of "''A\<newline>BB'' @ [CHR 0x00]"]
    ascii_text_width_max_line [of "''ABC\<newline>D'' @ [CHR 0x00]"]
  by (simp add: terminated_def c_string_def line_width_def ASCII_FONT_WIDTH_def INT_MAX_def
      wrap_int_def)

subsection \<open>Drawing text\<close>

text \<open>
  The loop of \<^verbatim>\<open>ascii_draw_text\<close> returns on a terminated string; what it returns is
  the width of the last line, to which the distance \<open>x - start_x\<close> already covered
  is added as long as no line break has been met, reduced to \<^verbatim>\<open>int\<close>.
\<close>

lemma ascii_draw_text_loop_scan:
  "CHR 0x00 \<notin> set s \<Longrightarrow>
   \<exists>st'. ascii_draw_text_loop (s @ CHR 0x00 # rest) start_x x current_y pixel_fn color user_data st =
     Some (wrap_int ((if CHR 0x0A \<in> set s then 0 else x - start_x)
                      + line_width (last (split_lines s))), st')"
proof (induction s arbitrary: x current_y st)
  case Nil
  then show ?case
    by (simp add: line_width_def)
next
  case (Cons ch s)
  then have no_nul: "CHR 0x00 \<notin> set s" and ch: "ch \<noteq> CHR 0x00"
    by auto
  obtain l ls where lines: "split_lines s = l # ls"
    by (cases "split_lines s") auto
  show ?case
  proof (cases "ch = CHR 0x0A")
    case True
    obtain st' where "ascii_draw_text_loop (s @ CHR 0x00 # rest) start_x start_x
        (wrap_int (current_y + ASCII_FONT_HEIGHT)) pixel_fn color user_data st =
        Some (wrap_int ((if CHR 0x0A \<in> set s then 0 else start_x - start_x)
              + line_width (last (split_lines s))), st')"
      using Cons.IH [OF no_nul, of start_x "wrap_int (current_y + ASCII_FONT_HEIGHT)" st] by blast
    then have "ascii_draw_text_loop ((ch # s) @ CHR 0x00 # rest) start_x x current_y
        pixel_fn color user_data st =
        Some (wrap_int ((if CHR 0x0A \<in> set (ch # s) then 0 else x - start_x)
              + line_width (last (split_lines (ch # s)))), st')"
      using True by simp
    then show ?thesis
      by blast
  next
    case False
    have last_eq: "line_width (last (split_lines (ch # s))) =
        (if CHR 0x0A \<in> set s then line_width (last (split_lines s))
         else ASCII_FONT_WIDTH + line_width (last (split_lines s)))"
    proof (cases "CHR 0x0A \<in> set s")
      case True
      then have "ls \<noteq> []"
        using length_split_lines [of s] lines
        by (cases ls) (auto simp: count_list_0_iff)
      then show ?thesis
        using False True by (simp add: lines)
    next
      case no_break: False
      then show ?thesis
        using False by (simp add: split_lines_no_break line_width_def algebra_simps)
    qed
    have wrapped: "wrap_int (wrap_int (x + ASCII_FONT_WIDTH) - start_x + w) =
        wrap_int (x - start_x + (ASCII_FONT_WIDTH + w))" for w
    proof -
      have "wrap_int (wrap_int (x + ASCII_FONT_WIDTH) - start_x + w) =
          wrap_int (wrap_int (x + ASCII_FONT_WIDTH) + (w - start_x))"
        by (simp add: algebra_simps)
      also have "\<dots> = wrap_int (x + ASCII_FONT_WIDTH + (w - start_x))"
        by (rule wrap_int_add_left)
      finally show ?thesis
        by (simp add: algebra_simps)
    qed
    obtain st' where "ascii_draw_text_loop (s @ CHR 0x00 # rest) start_x
        (wrap_int (x + ASCII_FONT_WIDTH)) current_y pixel_fn color user_data
        (ascii_draw_char ch x current_y pixel_fn color user_data st) =
        Some (wrap_int ((if CHR 0x0A \<in> set s then 0 else wrap_int (x + ASCII_FONT_WIDTH) - start_x)
              + line_width (last (split_lines s))), st')"
      using Cons.IH [OF no_nul, of "wrap_int (x + ASCII_FONT_WIDTH)" current_y
          "ascii_draw_char ch x current_y pixel_fn color user_data st"] by blast
    then have "ascii_draw_text_loop ((ch # s) @ CHR 0x00 # rest) start_x x current_y
        pixel_fn color user_data st =
        Some (wrap_int ((if CHR 0x0A \<in> set (ch # s) then 0 else x - start_x)
              + line_width (last (split_lines (ch # s)))), st')"
      using False ch by (simp add: last_eq wrapped del: split_lines.simps)
    then show ?thesis
      by blast
  qed
qed

lemma ascii_draw_text_string:
  assumes "CHR 0x00 \<notin> set s"
  shows "\<exists>st'. ascii_draw_text (s @ CHR 0x00 # rest) x y pixel_fn color user_data st =
     Some (wrap_int (line_width (last (split_lines s))), st')"
proof -
  obtain st' where "ascii_draw_text_loop (s @ CHR 0x00 # rest) x x y pixel_fn color user_data st =
        Some (wrap_int ((if CHR 0x0A \<in> set s then 0 else x - x)
              + line_width (last (split_lines s))), st')"
    using ascii_draw_text_loop_scan [OF assms, of rest x x y pixel_fn color user_data st] by blast
  then have "ascii_draw_text (s @ CHR 0x00 # rest) x y pixel_fn color user_data st =
     Some (wrap_int (line_width (last (split_lines s))), st')"
    unfolding ascii_draw_text_def by simp
  then show ?thesis
    by blast
qed

text \<open>
  Claim C4, as stated, fails on a single line of \<open>2^28\<close> characters: the claimed
  width \<open>2^28 * 8\<close> is \<open>2^31\<close>, which is no \<^verbatim>\<open>int\<close>, and the function returns
  \<open>- 2^31\<close>.
\<close>

theorem ascii_draw_text_counterexample:
  "terminated (replicate 268435456 (CHR ''A'') @ [CHR 0x00]) \<and>
   CHR 0x0A \<notin> set (c_string (replicate 268435456 (CHR ''A'') @ [CHR 0x00])) \<and>
   ascii_draw_text (replicate 268435456 (CHR ''A'') @ [CHR 0x00]) 0 0 record_call () () [] \<noteq> None \<and>
   fst (the (ascii_draw_text (replicate 268435456 (CHR ''A'') @ [CHR 0x00]) 0 0
       record_call () () [])) = - 2147483648 \<and>
   ASCII_FONT_WIDTH * int (length (c_string (replicate 268435456 (CHR ''A'') @ [CHR 0x00]))) =
     2147483648"
proof -
  let ?s = "replicate 268435456 (CHR ''A'')"
  have no_nul: "CHR 0x00 \<notin> set ?s" and no_break: "CHR 0x0A \<notin> set ?s"
    by simp_all
  have lines: "split_lines ?s = [?s]"
    using no_break by (rule split_lines_no_break)
  have width: "line_width ?s = 2147483648"
    unfolding line_width_replicate by simp
  obtain st' where "ascii_draw_text (?s @ [CHR 0x00]) 0 0 record_call () () [] =
      Some (wrap_int (line_width (last (split_lines ?s))), st')"
    using ascii_draw_text_string [OF no_nul, of "[]" 0 0 record_call "()" "()" "[]"] by blast
  then have returned: "ascii_draw_text (?s @ [CHR 0x00]) 0 0 record_call () () [] =
      Some (- 2147483648, st')"
    unfolding lines by (simp add: width wrap_int_2_31)
  have string: "c_string (?s @ [CHR 0x00]) = ?s"
    using no_nul by (rule c_string_append_nul)
  have claimed: "ASCII_FONT_WIDTH * int (length ?s) = 2147483648"
    using width by (simp only: line_width_def)
  show ?thesis
    unfolding string using returned claimed no_break terminated_append_nul [of ?s "[]"]
    by (simp only: option.sel fst_conv option.distinct not_False_eq_True simp_thms)
qed

text \<open>
  Claim C4, amended. On a terminated string \<^verbatim>\<open>ascii_draw_text\<close> returns, and the value
  it returns is the width of the last line of the string only, reduced to \<^verbatim>\<open>int\<close>:
  \<open>ASCII_FONT_WIDTH\<close> for each character after the last line break. Whenever that
  width is at most \<open>INT_MAX\<close> the value is the width itself; it is 0 when the string
  ends with a break, and for a string without a break of width at most \<open>INT_MAX\<close>
  it is \<open>ASCII_FONT_WIDTH\<close> times the length of the string.
\<close>

theorem ascii_draw_text_returns_last_line_width:
  assumes "terminated text"
  shows "(\<exists>st'. ascii_draw_text text x y pixel_fn color user_data st =
           Some (wrap_int (line_width (last (split_lines (c_string text)))), st')) \<and>
         (line_width (last (split_lines (c_string text))) \<le> INT_MAX \<longrightarrow>
           (\<exists>st'. ascii_draw_text text x y pixel_fn color user_data st =
             Some (line_width (last (split_lines (c_string text))), st')) \<and>
           (\<exists>st'. ascii_draw_text text x y pixel_fn color user_data st =
             Some (ASCII_FONT_WIDTH *
               int (length (takeWhile (\<lambda>ch. ch \<noteq> CHR 0x0A) (rev (c_string text)))), st'))) \<and>
         (c_string text \<noteq> [] \<and> last (c_string text) = CHR 0x0A \<longrightarrow>
            (\<exists>st'. ascii_draw_text text x y pixel_fn color user_data st = Some (0, st'))) \<and>
         (CHR 0x0A \<notin> set (c_string text) \<and>
          ASCII_FONT_WIDTH * int (length (c_string text)) \<le> INT_MAX \<longrightarrow>
            (\<exists>st'. ascii_draw_text text x y pixel_fn color user_data st =
              Some (ASCII_FONT_WIDTH * int (length (c_string text)), st')))"
proof -
  obtain rest where split: "text = c_string text @ CHR 0x00 # rest"
    using assms by (rule terminated_decompose)
  let ?w = "line_width (last (split_lines (c_string text)))"
  obtain st' where "ascii_draw_text (c_string text @ CHR 0x00 # rest) x y pixel_fn color user_data st =
      Some (wrap_int ?w, st')"
    using ascii_draw_text_string [OF c_string_no_nul, of "text" rest x y pixel_fn color user_data st]
    by blast
  then have first: "ascii_draw_text text x y pixel_fn color user_data st = Some (wrap_int ?w, st')"
    using split by simp
  have "INT_MIN \<le> ?w"
    using line_width_nonneg [of "last (split_lines (c_string text))"] by (simp add: INT_MIN_def)
  then have fits: "wrap_int ?w = ?w" if "?w \<le> INT_MAX"
    using that by (rule wrap_int_id)
  have trailing: "?w =
      ASCII_FONT_WIDTH * int (length (takeWhile (\<lambda>ch. ch \<noteq> CHR 0x0A) (rev (c_string text))))"
    by (simp add: last_split_lines line_width_def)
  have ends_with_break: "?w = 0"
    if "c_string text \<noteq> []" "last (c_string text) = CHR 0x0A"
  proof -
    have "hd (rev (c_string text)) = CHR 0x0A" "rev (c_string text) \<noteq> []"
      using that by (simp_all add: hd_rev)
    then have "takeWhile (\<lambda>ch. ch \<noteq> CHR 0x0A) (rev (c_string text)) = []"
      by (cases "rev (c_string text)") auto
    then show ?thesis
      by (simp add: trailing)
  qed
  have single: "?w = ASCII_FONT_WIDTH * int (length (c_string text))"
    if "CHR 0x0A \<notin> set (c_string text)"
    using that by (simp add: split_lines_no_break line_width_def)
  have c1: "\<exists>st'. ascii_draw_text text x y pixel_fn color user_data st = Some (wrap_int ?w, st')"
    using first by blast
  have c2: "(\<exists>st'. ascii_draw_text text x y pixel_fn color user_data st = Some (?w, st')) \<and>
      (\<exists>st'. ascii_draw_text text x y pixel_fn color user_data st =
        Some (ASCII_FONT_WIDTH *
          int (length (takeWhile (\<lambda>ch. ch \<noteq> CHR 0x0A) (rev (c_string text)))), st'))"
    if "?w \<le> INT_MAX"
    using first fits [OF that] trailing by auto
  have c3: "\<exists>st'. ascii_draw_text text x y pixel_fn color user_data st = Some (0, st')"
    if "c_string text \<noteq> [] \<and> last (c_string text) = CHR 0x0A"
    using first ends_with_break that by auto
  have c4: "\<exists>st'. ascii_draw_text text x y pixel_fn color user_data st =
      Some (ASCII_FONT_WIDTH * int (length (c_string text)), st')"
    if "CHR 0x0A \<notin> set (c_string text) \<and>
      ASCII_FONT_WIDTH * int (length (c_string text)) \<le> INT_MAX"
    using first fits single that by auto
  show ?thesis
    using c1 c2 c3 c4 by blast
qed

theorem ascii_draw_text_returns_last_line_width_witness:
  "terminated (''AB\<newline>C'' @ [CHR 0x00]) \<and>
   fst (the (ascii_draw_text (''AB\<newline>C'' @ [CHR 0x00]) 3 5
       (\<lambda>px py (c :: unit) (u :: unit) tr. tr @ [(px, py)]) () () [])) = 8 \<and>
   fst (the (ascii_draw_text (''AB\<newline>'' @ [CHR 0x00]) 3 5
       (\<lambda>px py (c :: unit) (u :: unit) tr. tr @ [(px, py)]) () () [])) = 0 \<and>
   CHR 0x0A \<notin> set (c_string (''ABC'' @ [CHR 0x00])) \<and>
   fst (the (ascii_draw_text (''ABC'' @ [CHR 0x00]) 3 5
       (\<lambda>px py (c :: unit) (u :: unit) tr. tr @ [(px, py)]) () () [])) = 3 * ASCII_FONT_WIDTH"
  using
    ascii_draw_text_returns_last_line_width [of "''AB\<newline>C'' @ [CHR 0x00]" 3 5
      "\<lambda>px py (c :: unit) (u :: unit) tr. tr @ [(px, py)]" "()" "()" "[]"]
    ascii_draw_text_returns_last_line_width [of "''AB\<newline>'' @ [CHR 0x00]" 3 5
      "\<lambda>px py (c :: unit) (u :: unit) tr. tr @ [(px, py)]" "()" "()" "[]"]
    ascii_draw_text_returns_last_line_width [of "''ABC'' @ [CHR 0x00]" 3 5
      "\<lambda>px py (c :: unit) (u :: unit) tr. tr @ [(px, py)]" "()" "()" "[]"]
  by (auto simp: terminated_def c_string_def line_width_def ASCII_FONT_WIDTH_def INT_MAX_def
      wrap_int_def)

text \<open>
  The returned value is not the maximum line width: on \<^verbatim>\<open>"AB\nC"\<close> the maximum is 16,
  as \<^verbatim>\<open>ascii_text_width\<close> computes, and \<^verbatim>\<open>ascii_draw_text\<close> returns 8.
\<close>

lemma ascii_draw_text_is_not_max_line_width:
  "ascii_text_width (''AB\<newline>C'' @ [CHR 0x00]) = Some 16 \<and>
   ascii_draw_text_loop (''AB\<newline>C'' @ [CHR 0x00]) 0 0 0 pixel_fn color user_data st \<noteq> None \<and>
   fst (the (ascii_draw_text (''AB\<newline>C'' @ [CHR 0x00]) 0 0 pixel_fn color user_data st)) = 8"
  by (simp add: ascii_text_width_def ascii_draw_text_def ASCII_FONT_WIDTH_def wrap_int_def)


section \<open>Drawing a character through the callback\<close>

declare ascii_draw_char_cols.simps [simp del]
declare ascii_draw_char_rows.simps [simp del]

lemma glyph_bit_test:
  fixes w :: uint8_t
  shows "uint w AND 2 ^ n = 0 \<longleftrightarrow> \<not> bit w n"
proof -
  have "uint w AND 2 ^ n = 0 \<longleftrightarrow> \<not> bit (uint w) n"
    by (rule and_exp_eq_0_iff_not_bit)
  moreover have "bit (uint w) n \<longleftrightarrow> bit w n"
    by (auto simp: bit_uint_iff dest: bit_imp_le_length)
  ultimately show ?thesis
    by simp
qed

lemma nat_col_step:
  assumes "0 \<le> col" "col < 8"
  shows "[nat col..<8] = nat col # [nat (col + 1)..<8]" and "nat (7 - col) = 7 - nat col"
proof -
  have "nat col < 8" "nat (col + 1) = Suc (nat col)"
    using assms by auto
  then show "[nat col..<8] = nat col # [nat (col + 1)..<8]"
    by (simp add: upt_conv_Cons)
  show "nat (7 - col) = 7 - nat col"
    using assms by auto
qed

lemma ascii_draw_char_cols_fold:
  "0 \<le> col \<Longrightarrow>
   ascii_draw_char_cols bitmap x y pixel_fn color user_data row col s =
     fold (\<lambda>cl. pixel_fn (wrap_int (x + int cl)) (wrap_int (y + row)) color user_data)
       (filter (\<lambda>cl. bit (bitmap ! nat row) (7 - cl)) [nat col..<8]) s"
proof (induction bitmap x y pixel_fn color user_data row col s rule: ascii_draw_char_cols.induct)
  case (1 bitmap x y pixel_fn color user_data row col s)
  show ?case
  proof (cases "col < 8")
    case True
    note step = nat_col_step [OF \<open>0 \<le> col\<close> True]
    show ?thesis
      using True \<open>0 \<le> col\<close> "1.IH"
      by (subst ascii_draw_char_cols.simps)
        (simp add: ASCII_FONT_WIDTH_def glyph_bit_test step)
  next
    case False
    then show ?thesis
      by (subst ascii_draw_char_cols.simps) (simp add: ASCII_FONT_WIDTH_def)
  qed
qed

text \<open>The set bits of one row, from the left.\<close>

lemma glyph_pixels_rows:
  "glyph_pixels bitmap =
     concat (map (\<lambda>r. map (Pair r) (filter (\<lambda>cl. bit (bitmap ! r) (7 - cl)) [0..<8])) [0..<8])"
proof -
  have row: "concat (map (\<lambda>cl. if P cl then [(r, cl)] else []) cs) = map (Pair r) (filter P cs)"
    for P :: "nat \<Rightarrow> bool" and r :: nat and cs
    by (induction cs) auto
  show ?thesis
    by (simp only: glyph_pixels_def row ASCII_FONT_HEIGHT_def ASCII_FONT_WIDTH_def) simp
qed

lemma ascii_draw_char_rows_fold:
  "0 \<le> row \<Longrightarrow>
   ascii_draw_char_rows bitmap x y pixel_fn color user_data row s =
     fold (\<lambda>(r, cl). pixel_fn (wrap_int (x + int cl)) (wrap_int (y + int r)) color user_data)
       (concat (map (\<lambda>r. map (Pair r) (filter (\<lambda>cl. bit (bitmap ! r) (7 - cl)) [0..<8]))
          [nat row..<8])) s"
proof (induction bitmap x y pixel_fn color user_data row s rule: ascii_draw_char_rows.induct)
  case (1 bitmap x y pixel_fn color user_data row s)
  show ?case
  proof (cases "row < 8")
    case True
    note step = nat_col_step [OF \<open>0 \<le> row\<close> True]
    have cols: "ascii_draw_char_cols bitmap x y pixel_fn color user_data row 0 s =
        fold (\<lambda>(r, cl). pixel_fn (wrap_int (x + int cl)) (wrap_int (y + int r)) color user_data)
          (map (Pair (nat row)) (filter (\<lambda>cl. bit (bitmap ! nat row) (7 - cl)) [0..<8])) s"
      using \<open>0 \<le> row\<close> by (simp add: ascii_draw_char_cols_fold fold_map comp_def)
    show ?thesis
      using True \<open>0 \<le> row\<close> "1.IH"
      by (subst ascii_draw_char_rows.simps)
        (simp add: ASCII_FONT_HEIGHT_def step(1) cols del: upt_Suc)
  next
    case False
    then show ?thesis
      by (subst ascii_draw_char_rows.simps) (simp add: ASCII_FONT_HEIGHT_def)
  qed
qed

lemma ascii_draw_char_fold:
  "ascii_draw_char c x y pixel_fn color user_data s =
     fold (\<lambda>(r, cl). pixel_fn (wrap_int (x + int cl)) (wrap_int (y + int r)) color user_data)
       (glyph_pixels (ascii_get_char_bitmap c)) s"
  by (simp add: ascii_draw_char_def ascii_draw_char_rows_fold glyph_pixels_rows del: upt_Suc)

lemma set_glyph_pixels:
  "set (glyph_pixels bitmap) = {(r, cl). r < 8 \<and> cl < 8 \<and> bit (bitmap ! r) (7 - cl)}"
  by (auto simp: glyph_pixels_def ASCII_FONT_HEIGHT_def ASCII_FONT_WIDTH_def)

lemma sorted_wrt_row_major_rows:
  assumes "sorted_wrt (<) rs" "sorted_wrt (<) cs"
  shows "sorted_wrt row_major (concat (map (\<lambda>r. map (Pair r) (filter (Q r) cs)) rs))"
  using assms(1)
proof (induction rs)
  case Nil
  then show ?case
    by simp
next
  case (Cons r rs)
  have "sorted_wrt (<) (filter (Q r) cs)"
    using assms(2) by (rule sorted_wrt_filter)
  then have row: "sorted_wrt row_major (map (Pair r) (filter (Q r) cs))"
    by (simp add: sorted_wrt_map row_major_def)
  have later: "row_major p q"
    if "p \<in> set (map (Pair r) (filter (Q r) cs))"
      "q \<in> set (concat (map (\<lambda>r. map (Pair r) (filter (Q r) cs)) rs))" for p q
    using that Cons.prems by (auto simp: row_major_def)
  show ?case
    using row later Cons by (simp add: sorted_wrt_append)
qed

lemma sorted_wrt_glyph_pixels: "sorted_wrt row_major (glyph_pixels bitmap)"
  unfolding glyph_pixels_rows
  by (rule sorted_wrt_row_major_rows) simp_all

lemma sorted_wrt_row_major_distinct: "sorted_wrt row_major ps \<Longrightarrow> distinct ps"
  by (induction ps) (auto simp: row_major_def)

lemma distinct_glyph_pixels: "distinct (glyph_pixels bitmap)"
  by (rule sorted_wrt_row_major_distinct) (rule sorted_wrt_glyph_pixels)

lemma fold_record_call:
  "fold (\<lambda>p. record_call (f p) (g p) color user_data) ps calls =
     calls @ map (\<lambda>p. (f p, g p, color, user_data)) ps"
  by (induction ps arbitrary: calls) (simp_all add: record_call_def)

lemma glyph_pixels_blank: "glyph_pixels blank_glyph = []"
  by (simp add: glyph_pixels_rows blank_glyph_def nth_Cons' filter_empty_conv del: upt_Suc)


lemma glyph_pixels_zero:
  "glyph_pixels zero_glyph =
     [(0, 2),
      (0, 3),
      (0, 4),
      (0, 5),
      (0, 6),
      (1, 1), (1, 2), (1, 3), (1, 4), (1, 5), (1, 6), (1, 7), (2, 1), (2, 2), (2, 4), (2, 6), (2, 7), (3, 1), (3, 2), (3, 4), (3, 6), (3, 7), (4, 1), (4, 2), (4, 4), (4, 6), (4, 7), (5, 1), (5, 2), (5, 4), (5, 6), (5, 7), (6, 1), (6, 2), (6, 3), (6, 4), (6, 5), (6, 6), (6, 7), (7, 2), (7, 3), (7, 4), (7, 5), (7, 6)]"
  by code_simp


lemma ascii_draw_char_recorded:
  "ascii_draw_char c x y record_call color user_data calls =
     calls @ map (\<lambda>(r, cl). (wrap_int (x + int cl), wrap_int (y + int r), color, user_data))
       (glyph_pixels (ascii_get_char_bitmap c))"
  using fold_record_call [of "\<lambda>p. wrap_int (x + int (snd p))" "\<lambda>p. wrap_int (y + int (fst p))"
      color user_data "glyph_pixels (ascii_get_char_bitmap c)" calls]
  by (simp add: ascii_draw_char_fold case_prod_unfold)

text \<open>
  Claim C1, as stated, fails where \<^verbatim>\<open>x + col\<close> is no \<^verbatim>\<open>int\<close>: for \<^verbatim>\<open>'0'\<close> drawn at
  \<open>x = INT_MAX - 3\<close>, \<open>y = 0\<close>, bit 3 of byte 0 is set (row 0, column 4), and the
  callback is not called with \<open>(x + 4, y + 0)\<close> but with \<open>(INT_MIN, 0)\<close>.
\<close>

theorem ascii_draw_char_counterexample:
  "bit (ascii_get_char_bitmap (CHR ''0'') ! 0) (7 - 4) \<and>
   (2147483644 + 4, 0 + 0, True, ())
     \<notin> set (ascii_draw_char (CHR ''0'') 2147483644 0 record_call True () []) \<and>
   (- 2147483648, 0, True, ())
     \<in> set (ascii_draw_char (CHR ''0'') 2147483644 0 record_call True () [])"
proof -
  have "(0, 4) \<in> set (glyph_pixels zero_glyph)"
    by (simp add: glyph_pixels_zero)
  then have "bit (zero_glyph ! 0) (7 - 4)"
    unfolding set_glyph_pixels by simp
  then show ?thesis
    by (simp add: ascii_draw_char_recorded ascii_get_char_bitmap_cases glyph_pixels_zero
        wrap_int_def)
qed

text \<open>
  Claim C1, amended. When \<open>x\<close> and \<open>y\<close> are values of \<^verbatim>\<open>int\<close> and no set bit of the
  glyph has a coordinate \<open>x + cl\<close> or \<open>y + r\<close> above \<open>INT_MAX\<close> (which holds when
  \<open>x\<close> and \<open>y\<close> are at most \<open>INT_MAX - 7\<close>), \<^verbatim>\<open>ascii_draw_char\<close> calls the callback for
  the set bits of the glyph of its character and for nothing else: the state after
  the call is the one reached by calling \<open>pixel_fn (x + cl) (y + r) color user_data\<close>
  for the pairs \<open>(r, cl)\<close> of \<open>glyph_pixels\<close>, in the order of that list. A callback
  that records its calls has recorded exactly these calls, in that order. The list
  holds exactly the pairs with \<open>r < 8\<close>, \<open>cl < 8\<close> and bit \<open>7 - cl\<close> of byte \<open>r\<close> set,
  each of them once, in row-major order: rows from the top, and columns from the left
  within a row.
\<close>

theorem ascii_draw_char_calls:
  assumes "INT_MIN \<le> x" "INT_MIN \<le> y"
    and "\<forall>(r, cl) \<in> set (glyph_pixels (ascii_get_char_bitmap c)).
          x + int cl \<le> INT_MAX \<and> y + int r \<le> INT_MAX"
  shows "ascii_draw_char c x y pixel_fn color user_data s =
     fold (\<lambda>(r, cl). pixel_fn (x + int cl) (y + int r) color user_data)
       (glyph_pixels (ascii_get_char_bitmap c)) s \<and>
   ascii_draw_char c x y record_call color user_data calls =
     calls @ map (\<lambda>(r, cl). (x + int cl, y + int r, color, user_data))
       (glyph_pixels (ascii_get_char_bitmap c)) \<and>
   set (glyph_pixels (ascii_get_char_bitmap c)) =
     {(r, cl). r < 8 \<and> cl < 8 \<and> bit (ascii_get_char_bitmap c ! r) (7 - cl)} \<and>
   distinct (glyph_pixels (ascii_get_char_bitmap c)) \<and>
   sorted_wrt row_major (glyph_pixels (ascii_get_char_bitmap c)) \<and>
   (x \<le> INT_MAX - 7 \<and> y \<le> INT_MAX - 7 \<longrightarrow>
      (\<forall>(r, cl) \<in> set (glyph_pixels (ascii_get_char_bitmap c)).
          x + int cl \<le> INT_MAX \<and> y + int r \<le> INT_MAX))"
proof -
  let ?ps = "glyph_pixels (ascii_get_char_bitmap c)"
  have exact: "wrap_int (x + int cl) = x + int cl \<and> wrap_int (y + int r) = y + int r"
    if "(r, cl) \<in> set ?ps" for r cl
  proof -
    have "x + int cl \<le> INT_MAX" "y + int r \<le> INT_MAX"
      using assms(3) that by auto
    moreover have "INT_MIN \<le> x + int cl" "INT_MIN \<le> y + int r"
      using assms(1,2) by simp_all
    ultimately show ?thesis
      by (simp add: wrap_int_id)
  qed
  have calls_eq: "fold (\<lambda>(r, cl). pixel_fn (wrap_int (x + int cl)) (wrap_int (y + int r)) color user_data) ?ps s =
      fold (\<lambda>(r, cl). pixel_fn (x + int cl) (y + int r) color user_data) ?ps s"
    by (rule fold_cong) (use exact in auto)
  have recorded_eq: "map (\<lambda>(r, cl). (wrap_int (x + int cl), wrap_int (y + int r), color, user_data)) ?ps =
      map (\<lambda>(r, cl). (x + int cl, y + int r, color, user_data)) ?ps"
    by (rule map_cong) (use exact in auto)
  have small: "x + int cl \<le> INT_MAX \<and> y + int r \<le> INT_MAX"
    if "x \<le> INT_MAX - 7" "y \<le> INT_MAX - 7" "(r, cl) \<in> set ?ps" for r cl
    using that by (auto simp: set_glyph_pixels)
  have c1: "ascii_draw_char c x y pixel_fn color user_data s =
      fold (\<lambda>(r, cl). pixel_fn (x + int cl) (y + int r) color user_data) ?ps s"
    using calls_eq by (simp only: ascii_draw_char_fold)
  have c2: "ascii_draw_char c x y record_call color user_data calls =
      calls @ map (\<lambda>(r, cl). (x + int cl, y + int r, color, user_data)) ?ps"
    using recorded_eq by (simp only: ascii_draw_char_recorded)
  have c3: "set ?ps = {(r, cl). r < 8 \<and> cl < 8 \<and> bit (ascii_get_char_bitmap c ! r) (7 - cl)}"
    by (rule set_glyph_pixels)
  have c4: "distinct ?ps"
    by (rule distinct_glyph_pixels)
  have c5: "sorted_wrt row_major ?ps"
    by (rule sorted_wrt_glyph_pixels)
  have c6: "x \<le> INT_MAX - 7 \<and> y \<le> INT_MAX - 7 \<longrightarrow>
      (\<forall>(r, cl) \<in> set ?ps. x + int cl \<le> INT_MAX \<and> y + int r \<le> INT_MAX)"
    using small by auto
  show ?thesis
    using c1 c2 c3 c4 c5 c6 by (intro conjI)
qed

theorem ascii_draw_char_calls_witness:
  "ascii_draw_char (CHR ''0'') 10 20 record_call True () [] =
     [(12, 20, True, ()), (13, 20, True, ()), (14, 20, True, ()), (15, 20, True, ()), (16, 20, True, ()),
      (11, 21, True, ()), (12, 21, True, ()), (13, 21, True, ()), (14, 21, True, ()), (15, 21, True, ()), (16, 21, True, ()), (17, 21, True, ()),
      (11, 22, True, ()), (12, 22, True, ()), (14, 22, True, ()), (16, 22, True, ()), (17, 22, True, ()),
      (11, 23, True, ()), (12, 23, True, ()), (14, 23, True, ()), (16, 23, True, ()), (17, 23, True, ()),
      (11, 24, True, ()), (12, 24, True, ()), (14, 24, True, ()), (16, 24, True, ()), (17, 24, True, ()),
      (11, 25, True, ()), (12, 25, True, ()), (14, 25, True, ()), (16, 25, True, ()), (17, 25, True, ()),
      (11, 26, True, ()), (12, 26, True, ()), (13, 26, True, ()), (14, 26, True, ()), (15, 26, True, ()), (16, 26, True, ()), (17, 26, True, ()),
      (12, 27, True, ()), (13, 27, True, ()), (14, 27, True, ()), (15, 27, True, ()), (16, 27, True, ())]"
  using ascii_draw_char_calls [of 10 20 "CHR ''0''" "\<lambda>px py color user_data s. s" True "()" "()" "[]"]
  by (simp add: ascii_get_char_bitmap_cases glyph_pixels_zero INT_MIN_def INT_MAX_def)


section \<open>Drawing into a buffer\<close>

declare ascii_draw_char_to_mono_buffer_cols.simps [simp del]
declare ascii_draw_char_to_mono_buffer_rows.simps [simp del]
declare ascii_draw_char_to_rgb565_buffer_cols.simps [simp del]
declare ascii_draw_char_to_rgb565_buffer_rows.simps [simp del]

subsection \<open>A sequence of stores\<close>

lemma writes_fold_buffer_write:
  "writes (fold (\<lambda>p. buffer_write (f p) v) ps buffer) = writes buffer @ map (\<lambda>p. (f p, v)) ps"
  by (induction ps arbitrary: buffer) (simp_all add: buffer_write_def)

lemma cells_fold_buffer_write:
  "cells (fold (\<lambda>p. buffer_write (f p) v) ps buffer) i =
     (if i \<in> f ` set ps then v else cells buffer i)"
  by (induction ps arbitrary: buffer) (auto simp: buffer_write_def)

lemma fold_row_stores:
  "fold (\<lambda>p. buffer_write (cell_index buf_width x y p) color) (map (Pair (nat row)) cs) buffer =
     fold (\<lambda>cl. buffer_write
         (wrap_int (wrap_int (wrap_int (y + int (nat row)) * buf_width) + wrap_int (x + int cl))) color)
       cs buffer"
  by (simp add: fold_map comp_def cell_index_def)

lemma clipped_pixels_rows:
  "clipped_pixels bitmap buf_width buf_height x y =
     concat (map (\<lambda>r. map (Pair r)
       (filter (\<lambda>cl. bit (bitmap ! r) (7 - cl))
          (takeWhile (\<lambda>cl. wrap_int (x + int cl) < buf_width) [0..<8])))
       (takeWhile (\<lambda>r. wrap_int (y + int r) < buf_height) [0..<8]))"
proof -
  have row: "concat (map (\<lambda>cl. if P cl then [(r, cl)] else []) cs) = map (Pair r) (filter P cs)"
    for P :: "nat \<Rightarrow> bool" and r :: nat and cs
    by (induction cs) auto
  show ?thesis
    by (simp only: clipped_pixels_def drawn_rows_def drawn_columns_def row
        ASCII_FONT_HEIGHT_def ASCII_FONT_WIDTH_def) simp
qed

subsection \<open>The monochrome loops\<close>

lemma ascii_draw_char_to_mono_buffer_cols_fold:
  "0 \<le> col \<Longrightarrow>
   ascii_draw_char_to_mono_buffer_cols bitmap buffer buf_width x color row py col =
     fold (\<lambda>cl. buffer_write (wrap_int (wrap_int (py * buf_width) + wrap_int (x + int cl))) color)
       (filter (\<lambda>cl. bit (bitmap ! nat row) (7 - cl))
          (takeWhile (\<lambda>cl. wrap_int (x + int cl) < buf_width) [nat col..<8]))
       buffer"
proof (induction bitmap buffer buf_width x color row py col
    rule: ascii_draw_char_to_mono_buffer_cols.induct)
  case (1 bitmap buffer buf_width x color row py col)
  show ?case
  proof (cases "col < 8")
    case True
    note step = nat_col_step [OF \<open>0 \<le> col\<close> True]
    show ?thesis
    proof (cases "wrap_int (x + col) \<ge> buf_width")
      case break: True
      show ?thesis
        using True break \<open>0 \<le> col\<close>
        by (subst ascii_draw_char_to_mono_buffer_cols.simps)
          (simp add: ASCII_FONT_WIDTH_def step(1))
    next
      case False
      then show ?thesis
        using True \<open>0 \<le> col\<close> "1.IH"
        by (subst ascii_draw_char_to_mono_buffer_cols.simps)
          (simp add: ASCII_FONT_WIDTH_def glyph_bit_test step)
    qed
  next
    case False
    then show ?thesis
      by (subst ascii_draw_char_to_mono_buffer_cols.simps) (simp add: ASCII_FONT_WIDTH_def)
  qed
qed

lemma ascii_draw_char_to_mono_buffer_rows_fold:
  "0 \<le> row \<Longrightarrow>
   ascii_draw_char_to_mono_buffer_rows bitmap buffer buf_width buf_height x y color row =
     fold (\<lambda>p. buffer_write (cell_index buf_width x y p) color)
       (concat (map (\<lambda>r. map (Pair r)
          (filter (\<lambda>cl. bit (bitmap ! r) (7 - cl))
             (takeWhile (\<lambda>cl. wrap_int (x + int cl) < buf_width) [0..<8])))
          (takeWhile (\<lambda>r. wrap_int (y + int r) < buf_height) [nat row..<8])))
       buffer"
proof (induction bitmap buffer buf_width buf_height x y color row
    rule: ascii_draw_char_to_mono_buffer_rows.induct)
  case (1 bitmap buffer buf_width buf_height x y color row)
  show ?case
  proof (cases "row < 8")
    case True
    note step = nat_col_step [OF \<open>0 \<le> row\<close> True]
    show ?thesis
    proof (cases "wrap_int (y + row) \<ge> buf_height")
      case break: True
      show ?thesis
        using True break \<open>0 \<le> row\<close>
        by (subst ascii_draw_char_to_mono_buffer_rows.simps)
          (simp add: ASCII_FONT_HEIGHT_def step(1))
    next
      case False
      have cols: "ascii_draw_char_to_mono_buffer_cols bitmap buffer buf_width x color row
            (wrap_int (y + row)) 0 =
          fold (\<lambda>p. buffer_write (cell_index buf_width x y p) color)
            (map (Pair (nat row))
              (filter (\<lambda>cl. bit (bitmap ! nat row) (7 - cl))
                 (takeWhile (\<lambda>cl. wrap_int (x + int cl) < buf_width) [0..<8])))
            buffer"
        using \<open>0 \<le> row\<close>
        by (simp add: fold_row_stores ascii_draw_char_to_mono_buffer_cols_fold)
      show ?thesis
        using True False \<open>0 \<le> row\<close> "1.IH"
        by (subst ascii_draw_char_to_mono_buffer_rows.simps)
          (simp add: ASCII_FONT_HEIGHT_def step(1) cols del: upt_Suc)
    qed
  next
    case False
    then show ?thesis
      by (subst ascii_draw_char_to_mono_buffer_rows.simps) (simp add: ASCII_FONT_HEIGHT_def)
  qed
qed

lemma ascii_draw_char_to_mono_buffer_fold:
  "ascii_draw_char_to_mono_buffer c buffer buf_width buf_height x y color =
     fold (\<lambda>p. buffer_write (cell_index buf_width x y p) color)
       (drawn_pixels c buf_width buf_height x y) buffer"
  by (simp add: ascii_draw_char_to_mono_buffer_def drawn_pixels_def clipped_pixels_rows
      ascii_draw_char_to_mono_buffer_rows_fold del: upt_Suc)

subsection \<open>The RGB565 loops\<close>

lemma ascii_draw_char_to_rgb565_buffer_cols_fold:
  "0 \<le> col \<Longrightarrow>
   ascii_draw_char_to_rgb565_buffer_cols bitmap buffer buf_width x color row py col =
     fold (\<lambda>cl. buffer_write (wrap_int (wrap_int (py * buf_width) + wrap_int (x + int cl))) color)
       (filter (\<lambda>cl. bit (bitmap ! nat row) (7 - cl))
          (takeWhile (\<lambda>cl. wrap_int (x + int cl) < buf_width) [nat col..<8]))
       buffer"
proof (induction bitmap buffer buf_width x color row py col
    rule: ascii_draw_char_to_rgb565_buffer_cols.induct)
  case (1 bitmap buffer buf_width x color row py col)
  show ?case
  proof (cases "col < 8")
    case True
    note step = nat_col_step [OF \<open>0 \<le> col\<close> True]
    show ?thesis
    proof (cases "wrap_int (x + col) \<ge> buf_width")
      case break: True
      show ?thesis
        using True break \<open>0 \<le> col\<close>
        by (subst ascii_draw_char_to_rgb565_buffer_cols.simps)
          (simp add: ASCII_FONT_WIDTH_def step(1))
    next
      case False
      then show ?thesis
        using True \<open>0 \<le> col\<close> "1.IH"
        by (subst ascii_draw_char_to_rgb565_buffer_cols.simps)
          (simp add: ASCII_FONT_WIDTH_def glyph_bit_test step)
    qed
  next
    case False
    then show ?thesis
      by (subst ascii_draw_char_to_rgb565_buffer_cols.simps) (simp add: ASCII_FONT_WIDTH_def)
  qed
qed

lemma ascii_draw_char_to_rgb565_buffer_rows_fold:
  "0 \<le> row \<Longrightarrow>
   ascii_draw_char_to_rgb565_buffer_rows bitmap buffer buf_width buf_height x y color row =
     fold (\<lambda>p. buffer_write (cell_index buf_width x y p) color)
       (concat (map (\<lambda>r. map (Pair r)
          (filter (\<lambda>cl. bit (bitmap ! r) (7 - cl))
             (takeWhile (\<lambda>cl. wrap_int (x + int cl) < buf_width) [0..<8])))
          (takeWhile (\<lambda>r. wrap_int (y + int r) < buf_height) [nat row..<8])))
       buffer"
proof (induction bitmap buffer buf_width buf_height x y color row
    rule: ascii_draw_char_to_rgb565_buffer_rows.induct)
  case (1 bitmap buffer buf_width buf_height x y color row)
  show ?case
  proof (cases "row < 8")
    case True
    note step = nat_col_step [OF \<open>0 \<le> row\<close> True]
    show ?thesis
    proof (cases "wrap_int (y + row) \<ge> buf_height")
      case break: True
      show ?thesis
        using True break \<open>0 \<le> row\<close>
        by (subst ascii_draw_char_to_rgb565_buffer_rows.simps)
          (simp add: ASCII_FONT_HEIGHT_def step(1))
    next
      case False
      have cols: "ascii_draw_char_to_rgb565_buffer_cols bitmap buffer buf_width x color row
            (wrap_int (y + row)) 0 =
          fold (\<lambda>p. buffer_write (cell_index buf_width x y p) color)
            (map (Pair (nat row))
              (filter (\<lambda>cl. bit (bitmap ! nat row) (7 - cl))
                 (takeWhile (\<lambda>cl. wrap_int (x + int cl) < buf_width) [0..<8])))
            buffer"
        using \<open>0 \<le> row\<close>
        by (simp add: fold_row_stores ascii_draw_char_to_rgb565_buffer_cols_fold)
      show ?thesis
        using True False \<open>0 \<le> row\<close> "1.IH"
        by (subst ascii_draw_char_to_rgb565_buffer_rows.simps)
          (simp add: ASCII_FONT_HEIGHT_def step(1) cols del: upt_Suc)
    qed
  next
    case False
    then show ?thesis
      by (subst ascii_draw_char_to_rgb565_buffer_rows.simps) (simp add: ASCII_FONT_HEIGHT_def)
  qed
qed

lemma ascii_draw_char_to_rgb565_buffer_fold:
  "ascii_draw_char_to_rgb565_buffer c buffer buf_width buf_height x y color =
     fold (\<lambda>p. buffer_write (cell_index buf_width x y p) color)
       (drawn_pixels c buf_width buf_height x y) buffer"
  by (simp add: ascii_draw_char_to_rgb565_buffer_def drawn_pixels_def clipped_pixels_rows
      ascii_draw_char_to_rgb565_buffer_rows_fold del: upt_Suc)


section \<open>Properties of the buffer draws\<close>

lemma new_writes_fold_buffer_write:
  "new_writes buffer (fold (\<lambda>p. buffer_write (f p) v) ps buffer) = map (\<lambda>p. (f p, v)) ps"
  by (simp add: new_writes_def writes_fold_buffer_write)

subsection \<open>The rows and columns reached\<close>

lemma takeWhile_upt_below: "j \<in> set (takeWhile P [0..<n]) \<Longrightarrow> i \<le> j \<Longrightarrow> P i"
proof (induction n)
  case 0
  then show ?case
    by simp
next
  case (Suc n)
  have upt: "[0..<Suc n] = [0..<n] @ [n]"
    by simp
  show ?case
  proof (cases "\<forall>k \<in> set [0..<n]. P k")
    case True
    then have "takeWhile P ([0..<n] @ [n]) = [0..<n] @ takeWhile P [n]"
      by (intro takeWhile_append2) blast
    then have "j \<in> set ([0..<n] @ takeWhile P [n])"
      using Suc.prems(1) unfolding upt by simp
    then have "j < n \<or> (j = n \<and> P n)"
      by (auto split: if_splits)
    then show ?thesis
      using True Suc.prems(2) by (cases "i = n") auto
  next
    case False
    then obtain k where k: "k \<in> set [0..<n]" "\<not> P k"
      by blast
    have "takeWhile P ([0..<n] @ [n]) = takeWhile P [0..<n]"
      using k by (rule takeWhile_append1)
    then have "j \<in> set (takeWhile P [0..<n])"
      using Suc.prems(1) unfolding upt by simp
    then show ?thesis
      using Suc.prems(2) by (rule Suc.IH)
  qed
qed

text \<open>
  Where the origin coordinate is not negative and below a bound that is an \<^verbatim>\<open>int\<close>,
  the coordinates of the rows and columns reached do not overflow and are below the
  bound: the loop stops before they could.
\<close>

lemma reached_exact:
  assumes "0 \<le> a" "a < w" "w \<le> INT_MAX"
    and "k \<in> set (takeWhile (\<lambda>i. wrap_int (a + int i) < w) [0..<n])"
  shows "a + int k < w"
proof -
  have below: "wrap_int (a + int i) < w" if "i \<le> k" for i
    using assms(4) that by (rule takeWhile_upt_below)
  have "i \<le> k \<Longrightarrow> a + int i < w" for i
  proof (induction i)
    case 0
    then show ?case
      using assms(2) by simp
  next
    case (Suc i)
    then have "a + int i < w"
      by simp
    then have "INT_MIN \<le> a + int (Suc i)" "a + int (Suc i) \<le> INT_MAX"
      using assms(1,3) by (simp_all add: INT_MIN_def)
    then have "wrap_int (a + int (Suc i)) = a + int (Suc i)"
      by (rule wrap_int_id)
    then show ?case
      using below [OF Suc.prems] by simp
  qed
  then show ?thesis
    by simp
qed

lemma set_clipped_pixels:
  "set (clipped_pixels bitmap buf_width buf_height x y) =
     {(r, cl). r \<in> set (drawn_rows buf_height y) \<and> cl \<in> set (drawn_columns buf_width x)
        \<and> bit (bitmap ! r) (7 - cl)}"
  by (auto simp: clipped_pixels_def)

lemma drawn_pixels_glyph:
  assumes "(r, cl) \<in> set (drawn_pixels c buf_width buf_height x y)"
  shows "(r, cl) \<in> set (glyph_pixels (ascii_get_char_bitmap c))"
proof -
  have "r \<in> set (drawn_rows buf_height y)" "cl \<in> set (drawn_columns buf_width x)"
    "bit (ascii_get_char_bitmap c ! r) (7 - cl)"
    using assms by (auto simp: drawn_pixels_def set_clipped_pixels split: if_splits)
  moreover from this have "r < 8" "cl < 8"
    by (auto simp: drawn_rows_def drawn_columns_def ASCII_FONT_HEIGHT_def ASCII_FONT_WIDTH_def
        dest: set_takeWhileD)
  ultimately show ?thesis
    by (simp add: set_glyph_pixels)
qed

lemma drawn_pixels_inside:
  assumes "buf_width \<le> INT_MAX" "buf_height \<le> INT_MAX"
    and "(r, cl) \<in> set (drawn_pixels c buf_width buf_height x y)"
  shows "0 \<le> x + int cl" "x + int cl < buf_width" "0 \<le> y + int r" "y + int r < buf_height"
proof -
  have origin: "0 \<le> x" "x < buf_width" "0 \<le> y" "y < buf_height"
    and reached: "r \<in> set (drawn_rows buf_height y)" "cl \<in> set (drawn_columns buf_width x)"
    using assms(3) by (auto simp: drawn_pixels_def set_clipped_pixels split: if_splits)
  show "0 \<le> x + int cl" "0 \<le> y + int r"
    using origin by simp_all
  show "x + int cl < buf_width"
    using origin(1,2) assms(1) reached(2) unfolding drawn_columns_def by (rule reached_exact)
  show "y + int r < buf_height"
    using origin(3,4) assms(2) reached(1) unfolding drawn_rows_def by (rule reached_exact)
qed

lemma cell_index_inside:
  fixes px py buf_width buf_height :: int
  assumes "0 \<le> px" "px < buf_width" "0 \<le> py" "py < buf_height"
  shows "0 \<le> py * buf_width + px" "py * buf_width + px < buf_width * buf_height"
proof -
  have "0 \<le> buf_width"
    using assms by linarith
  then have "0 \<le> py * buf_width"
    using assms by (intro mult_nonneg_nonneg)
  then show "0 \<le> py * buf_width + px"
    using assms by linarith
  have "py + 1 \<le> buf_height"
    using assms by simp
  then have "(py + 1) * buf_width \<le> buf_height * buf_width"
    using assms by (intro mult_right_mono) auto
  then show "py * buf_width + px < buf_width * buf_height"
    using assms by (simp add: algebra_simps)
qed

lemma cell_index_unique:
  fixes w :: int
  assumes "0 \<le> a" "a < w" "0 \<le> b" "b < w" "p * w + a = q * w + b"
  shows "a = b \<and> p = q"
proof -
  have "a = (p * w + a) mod w"
    using assms(1,2) by simp
  also have "\<dots> = (q * w + b) mod w"
    by (simp only: assms(5))
  also have "\<dots> = b"
    using assms(3,4) by simp
  finally have ab: "a = b" .
  then have "p * w = q * w"
    using assms(5) by simp
  then have "p = q"
    using assms by simp
  with ab show ?thesis
    by simp
qed


text \<open>
  In a buffer whose cells all have an \<^verbatim>\<open>int\<close> index, the index the code computes for
  a bit it stores is \<open>(y + r) * buf_width + (x + cl)\<close>: nothing overflows.
\<close>

lemma cell_index_exact:
  assumes "int_indexed buf_width buf_height"
    and "(r, cl) \<in> set (drawn_pixels c buf_width buf_height x y)"
  shows "cell_index buf_width x y (r, cl) = (y + int r) * buf_width + (x + int cl)"
proof -
  have dims: "buf_width \<le> INT_MAX" "buf_height \<le> INT_MAX" "buf_width * buf_height \<le> INT_MAX + 1"
    using assms(1) by (simp_all add: int_indexed_def)
  note inside = drawn_pixels_inside [OF dims(1,2) assms(2)]
  have px: "wrap_int (x + int cl) = x + int cl"
    using inside(1,2) dims(1) by (intro wrap_int_id) (simp_all add: INT_MIN_def)
  have py: "wrap_int (y + int r) = y + int r"
    using inside(3,4) dims(2) by (intro wrap_int_id) (simp_all add: INT_MIN_def)
  have sum: "0 \<le> (y + int r) * buf_width + (x + int cl)"
    "(y + int r) * buf_width + (x + int cl) < buf_width * buf_height"
    using inside by (rule cell_index_inside)+
  have "0 \<le> (y + int r) * buf_width"
    using inside by (intro mult_nonneg_nonneg) linarith+
  moreover have "(y + int r) * buf_width \<le> INT_MAX"
    using sum(2) inside(1) dims(3) by linarith
  ultimately have prod: "wrap_int ((y + int r) * buf_width) = (y + int r) * buf_width"
    by (intro wrap_int_id) (simp_all add: INT_MIN_def)
  have "wrap_int ((y + int r) * buf_width + (x + int cl)) = (y + int r) * buf_width + (x + int cl)"
    using sum dims(3) by (intro wrap_int_id) (simp_all add: INT_MIN_def)
  then show ?thesis
    by (simp add: cell_index_def px py prod)
qed

lemma glyph_bit_at_iff:
  "glyph_bit_at bitmap x y px py \<longleftrightarrow>
     (\<exists>r cl. (r, cl) \<in> set (glyph_pixels bitmap) \<and> px = x + int cl \<and> py = y + int r)"
proof
  assume "glyph_bit_at bitmap x y px py"
  then have "(nat (py - y), nat (px - x)) \<in> set (glyph_pixels bitmap)"
    "px = x + int (nat (px - x))" "py = y + int (nat (py - y))"
    by (simp_all add: glyph_bit_at_def)
  then show "\<exists>r cl. (r, cl) \<in> set (glyph_pixels bitmap) \<and> px = x + int cl \<and> py = y + int r"
    by blast
next
  assume "\<exists>r cl. (r, cl) \<in> set (glyph_pixels bitmap) \<and> px = x + int cl \<and> py = y + int r"
  then show "glyph_bit_at bitmap x y px py"
    by (auto simp: glyph_bit_at_def)
qed

text \<open>Every store of a buffer draw: its value, its cell and its index.\<close>

lemma drawn_write_inside:
  assumes "int_indexed buf_width buf_height"
    and "(i, v) \<in> set (map (\<lambda>p. (cell_index buf_width x y p, color))
      (drawn_pixels c buf_width buf_height x y))"
  shows "v = color \<and>
    (\<exists>px py. i = py * buf_width + px \<and> 0 \<le> px \<and> px < buf_width \<and> 0 \<le> py \<and> py < buf_height) \<and>
    0 \<le> i \<and> i < buf_width * buf_height"
proof -
  obtain r cl where p: "(r, cl) \<in> set (drawn_pixels c buf_width buf_height x y)"
    and i': "i = cell_index buf_width x y (r, cl)" and v: "v = color"
    using assms(2) by auto
  have i: "i = (y + int r) * buf_width + (x + int cl)"
    unfolding i' using assms(1) p by (rule cell_index_exact)
  have dims: "buf_width \<le> INT_MAX" "buf_height \<le> INT_MAX"
    using assms(1) by (simp_all add: int_indexed_def)
  note inside = drawn_pixels_inside [OF dims p]
  have "0 \<le> i" "i < buf_width * buf_height"
    unfolding i using inside by (rule cell_index_inside)+
  moreover have "\<exists>px py. i = py * buf_width + px \<and> 0 \<le> px \<and> px < buf_width \<and> 0 \<le> py \<and> py < buf_height"
    using i inside by blast
  ultimately show ?thesis
    using v by simp
qed

text \<open>A cell changed by a buffer draw lies under a set bit of the glyph.\<close>

lemma drawn_cell_is_glyph_bit:
  assumes "int_indexed buf_width buf_height" "0 \<le> px" "px < buf_width"
    and "py * buf_width + px \<in> cell_index buf_width x y ` set (drawn_pixels c buf_width buf_height x y)"
  shows "glyph_bit_at (ascii_get_char_bitmap c) x y px py"
proof -
  obtain r cl where p: "(r, cl) \<in> set (drawn_pixels c buf_width buf_height x y)"
    and i': "py * buf_width + px = cell_index buf_width x y (r, cl)"
    using assms(4) by auto
  have i: "py * buf_width + px = (y + int r) * buf_width + (x + int cl)"
    unfolding i' using assms(1) p by (rule cell_index_exact)
  have dims: "buf_width \<le> INT_MAX" "buf_height \<le> INT_MAX"
    using assms(1) by (simp_all add: int_indexed_def)
  note inside = drawn_pixels_inside [OF dims p]
  have "px = x + int cl \<and> py = y + int r"
    using cell_index_unique [OF assms(2,3) inside(1,2) i] by simp
  then show ?thesis
    using drawn_pixels_glyph [OF p] by (auto simp: glyph_bit_at_iff)
qed

lemma drawn_index_inside:
  assumes "int_indexed buf_width buf_height"
    and "i \<in> cell_index buf_width x y ` set (drawn_pixels c buf_width buf_height x y)"
  shows "0 \<le> i \<and> i < buf_width * buf_height"
proof -
  have "(i, ()) \<in> set (map (\<lambda>p. (cell_index buf_width x y p, ()))
      (drawn_pixels c buf_width buf_height x y))"
    using assms(2) by auto
  with assms(1) show ?thesis
    by (rule drawn_write_inside [THEN conjunct2, THEN conjunct2])
qed

lemma drawn_pixels_outside_origin:
  "x < 0 \<or> y < 0 \<or> x \<ge> buf_width \<or> y \<ge> buf_height \<Longrightarrow>
   drawn_pixels c buf_width buf_height x y = []"
  by (simp add: drawn_pixels_def)

lemma drawn_pixels_no_bits:
  assumes "glyph_pixels (ascii_get_char_bitmap c) = []"
  shows "drawn_pixels c buf_width buf_height x y = []"
proof (rule ccontr)
  assume "drawn_pixels c buf_width buf_height x y \<noteq> []"
  then obtain p where "p \<in> set (drawn_pixels c buf_width buf_height x y)"
    by (cases "drawn_pixels c buf_width buf_height x y") auto
  then have "p \<in> set (glyph_pixels (ascii_get_char_bitmap c))"
    using drawn_pixels_glyph [of "fst p" "snd p"] by simp
  then show False
    using assms by simp
qed

lemma new_writes_mono:
  "new_writes buffer (ascii_draw_char_to_mono_buffer c buffer buf_width buf_height x y color) =
     map (\<lambda>p. (cell_index buf_width x y p, color)) (drawn_pixels c buf_width buf_height x y)"
  by (simp add: ascii_draw_char_to_mono_buffer_fold new_writes_fold_buffer_write)

lemma new_writes_rgb565:
  "new_writes buffer (ascii_draw_char_to_rgb565_buffer c buffer buf_width buf_height x y color) =
     map (\<lambda>p. (cell_index buf_width x y p, color)) (drawn_pixels c buf_width buf_height x y)"
  by (simp add: ascii_draw_char_to_rgb565_buffer_fold new_writes_fold_buffer_write)

lemma writes_mono:
  "writes (ascii_draw_char_to_mono_buffer c buffer buf_width buf_height x y color) =
     writes buffer
       @ new_writes buffer (ascii_draw_char_to_mono_buffer c buffer buf_width buf_height x y color)"
  by (simp add: ascii_draw_char_to_mono_buffer_fold new_writes_def writes_fold_buffer_write)

lemma writes_rgb565:
  "writes (ascii_draw_char_to_rgb565_buffer c buffer buf_width buf_height x y color) =
     writes buffer
       @ new_writes buffer (ascii_draw_char_to_rgb565_buffer c buffer buf_width buf_height x y color)"
  by (simp add: ascii_draw_char_to_rgb565_buffer_fold new_writes_def writes_fold_buffer_write)

lemma cells_mono:
  "cells (ascii_draw_char_to_mono_buffer c buffer buf_width buf_height x y color) i =
     (if i \<in> cell_index buf_width x y ` set (drawn_pixels c buf_width buf_height x y)
      then color else cells buffer i)"
  by (simp add: ascii_draw_char_to_mono_buffer_fold cells_fold_buffer_write)

lemma cells_rgb565:
  "cells (ascii_draw_char_to_rgb565_buffer c buffer buf_width buf_height x y color) i =
     (if i \<in> cell_index buf_width x y ` set (drawn_pixels c buf_width buf_height x y)
      then color else cells buffer i)"
  by (simp add: ascii_draw_char_to_rgb565_buffer_fold cells_fold_buffer_write)

text \<open>
  The glyph of \<^verbatim>\<open>'0'\<close> drawn at \<open>(2, 1)\<close> into a buffer 5 wide and 4 high: the bits of
  rows 0 to 2 and columns 0 to 2 are stored, the rest is clipped.
\<close>

lemma drawn_pixels_zero_clipped:
  "drawn_pixels (CHR ''0'') 5 4 2 1 = [(0, 2), (1, 1), (1, 2), (2, 1), (2, 2)]"
  by code_simp

text \<open>
  The first bit stored for \<^verbatim>\<open>'0'\<close> drawn at the column \<open>x = 2\<close> of a buffer more than 4
  wide and reaching below \<open>y\<close>: row 0, column 2.
\<close>

lemma drawn_pixels_zero_first:
  "(0, 2) \<in> set (drawn_pixels (CHR ''0'') 65536 65536 2 32768)"
  "(0, 2) \<in> set (drawn_pixels (CHR ''0'') 65536 131072 2 65537)"
  by code_simp+

text \<open>
  Claim C2, as stated, fails for a buffer with more cells than \<^verbatim>\<open>int\<close> has values: in
  a buffer 65536 wide and 65536 high, \<^verbatim>\<open>'0'\<close> drawn at \<open>(2, 32768)\<close> has the cell
  \<open>(4, 32768)\<close> under a set bit; its index \<open>32768 * 65536 + 4\<close> is \<open>2^31 + 4\<close>,
  which is no \<^verbatim>\<open>int\<close>, and the store goes to index \<open>4 - 2^31\<close>, before the buffer.
\<close>

theorem buffer_draws_store_counterexample:
  "(- 2147483644, 1) \<in> set (new_writes (fresh_buffer (\<lambda>i. 0))
      (ascii_draw_char_to_mono_buffer (CHR ''0'') (fresh_buffer (\<lambda>i. 0)) 65536 65536 2 32768 1)) \<and>
   (- 2147483644 :: int) < 0 \<and>
   (0 :: int) \<le> 2 \<and> (2 :: int) < 65536 \<and> (0 :: int) \<le> 32768 \<and> (32768 :: int) < 65536"
proof -
  have index: "cell_index 65536 2 32768 (0, 2) = - 2147483644"
    by (simp add: cell_index_def wrap_int_def)
  have "(cell_index 65536 2 32768 (0, 2), 1 :: uint8_t) \<in> (\<lambda>p. (cell_index 65536 2 32768 p, 1))
      ` set (drawn_pixels (CHR ''0'') 65536 65536 2 32768)"
    using drawn_pixels_zero_first(1) by (rule imageI)
  then have "(- 2147483644, 1 :: uint8_t) \<in> set (new_writes (fresh_buffer (\<lambda>i. 0))
      (ascii_draw_char_to_mono_buffer (CHR ''0'') (fresh_buffer (\<lambda>i. 0)) 65536 65536 2 32768 1))"
    unfolding index new_writes_mono set_map .
  then show ?thesis
    by simp
qed

text \<open>
  Claim C2, amended. In a buffer whose width and height are values of \<^verbatim>\<open>int\<close> and that
  has at most \<open>INT_MAX + 1\<close> cells, every store that \<^verbatim>\<open>ascii_draw_char_to_mono_buffer\<close>
  and \<^verbatim>\<open>ascii_draw_char_to_rgb565_buffer\<close> make, for any character, buffer, origin and
  colour, stores the colour at an index \<open>py * buf_width + px\<close> with
  \<open>0 \<le> px < buf_width\<close> and \<open>0 \<le> py < buf_height\<close>, an index of the array of
  \<open>buf_width * buf_height\<close> elements; the stores recorded before the call stay as
  they were.
\<close>

theorem buffer_draws_store_inside:
  assumes "int_indexed buf_width buf_height"
  shows
  "(\<forall>(i, v) \<in> set (new_writes buffer8
        (ascii_draw_char_to_mono_buffer c buffer8 buf_width buf_height x y color8)).
      v = color8 \<and>
      (\<exists>px py. i = py * buf_width + px \<and> 0 \<le> px \<and> px < buf_width \<and> 0 \<le> py \<and> py < buf_height) \<and>
      0 \<le> i \<and> i < buf_width * buf_height) \<and>
   writes (ascii_draw_char_to_mono_buffer c buffer8 buf_width buf_height x y color8) =
     writes buffer8
       @ new_writes buffer8 (ascii_draw_char_to_mono_buffer c buffer8 buf_width buf_height x y color8) \<and>
   (\<forall>(i, v) \<in> set (new_writes buffer16
        (ascii_draw_char_to_rgb565_buffer c buffer16 buf_width buf_height x y color16)).
      v = color16 \<and>
      (\<exists>px py. i = py * buf_width + px \<and> 0 \<le> px \<and> px < buf_width \<and> 0 \<le> py \<and> py < buf_height) \<and>
      0 \<le> i \<and> i < buf_width * buf_height) \<and>
   writes (ascii_draw_char_to_rgb565_buffer c buffer16 buf_width buf_height x y color16) =
     writes buffer16
       @ new_writes buffer16 (ascii_draw_char_to_rgb565_buffer c buffer16 buf_width buf_height x y color16)"
proof -
  have mono: "v = color8 \<and>
      (\<exists>px py. i = py * buf_width + px \<and> 0 \<le> px \<and> px < buf_width \<and> 0 \<le> py \<and> py < buf_height) \<and>
      0 \<le> i \<and> i < buf_width * buf_height"
    if "(i, v) \<in> set (new_writes buffer8
        (ascii_draw_char_to_mono_buffer c buffer8 buf_width buf_height x y color8))" for i v
    using assms that unfolding new_writes_mono by (rule drawn_write_inside)
  have rgb: "v = color16 \<and>
      (\<exists>px py. i = py * buf_width + px \<and> 0 \<le> px \<and> px < buf_width \<and> 0 \<le> py \<and> py < buf_height) \<and>
      0 \<le> i \<and> i < buf_width * buf_height"
    if "(i, v) \<in> set (new_writes buffer16
        (ascii_draw_char_to_rgb565_buffer c buffer16 buf_width buf_height x y color16))" for i v
    using assms that unfolding new_writes_rgb565 by (rule drawn_write_inside)
  show ?thesis
    using mono rgb writes_mono [of c buffer8 buf_width buf_height x y color8]
      writes_rgb565 [of c buffer16 buf_width buf_height x y color16]
    by (intro conjI ballI) (auto simp only: split_paired_all case_prod_conv)
qed

theorem buffer_draws_store_inside_witness:
  "new_writes (fresh_buffer (\<lambda>i. 0))
      (ascii_draw_char_to_mono_buffer (CHR ''0'') (fresh_buffer (\<lambda>i. 0)) 5 4 2 1 1) =
     [(9, 1), (13, 1), (14, 1), (18, 1), (19, 1)] \<and>
   new_writes (fresh_buffer (\<lambda>i. 0))
      (ascii_draw_char_to_rgb565_buffer (CHR ''0'') (fresh_buffer (\<lambda>i. 0)) 5 4 2 1 0xFFFF) =
     [(9, 0xFFFF), (13, 0xFFFF), (14, 0xFFFF), (18, 0xFFFF), (19, 0xFFFF)] \<and>
   (\<exists>px py. (19 :: int) = py * 5 + px \<and> 0 \<le> px \<and> px < 5 \<and> 0 \<le> py \<and> py < 4)"
  using buffer_draws_store_inside [where buf_width = 5 and buf_height = 4 and c = "CHR ''0''"
      and x = 2 and y = 1 and ?buffer8.0 = "fresh_buffer (\<lambda>i. 0)" and ?color8.0 = 1
      and ?buffer16.0 = "fresh_buffer (\<lambda>i. 0)" and ?color16.0 = "0xFFFF"]
  by (simp add: new_writes_mono new_writes_rgb565 drawn_pixels_zero_clipped cell_index_def
      wrap_int_def int_indexed_def INT_MAX_def)

text \<open>
  Claim C7, as stated, fails for a buffer with more cells than \<^verbatim>\<open>int\<close> has values: in
  a buffer 65536 wide and 131072 high, \<^verbatim>\<open>'0'\<close> drawn at \<open>(2, 65537)\<close> has the cell
  \<open>(4, 65537)\<close> under a set bit; its index \<open>65537 * 65536 + 4\<close> is \<open>2^32 + 65540\<close>,
  which is no \<^verbatim>\<open>int\<close>, and the store goes to index \<open>65540\<close>, the cell \<open>(4, 1)\<close>, which
  lies under no bit of the glyph.
\<close>

theorem buffer_draws_frame_counterexample:
  "(0 :: int) \<le> 2 \<and> (2 :: int) < 65536 \<and> (0 :: int) \<le> 65537 \<and> (65537 :: int) < 131072 \<and>
   (0 :: int) \<le> 4 \<and> (4 :: int) < 65536 \<and>
   \<not> glyph_bit_at (ascii_get_char_bitmap (CHR ''0'')) 2 65537 4 1 \<and>
   cells (fresh_buffer (\<lambda>i. 0)) (1 * 65536 + 4) = (0 :: uint8_t) \<and>
   cells (ascii_draw_char_to_mono_buffer (CHR ''0'') (fresh_buffer (\<lambda>i. 0)) 65536 131072 2 65537 1)
     (1 * 65536 + 4) = 1"
proof -
  have index: "cell_index 65536 2 65537 (0, 2) = 1 * 65536 + 4"
    by (simp add: cell_index_def wrap_int_def)
  have "cell_index 65536 2 65537 (0, 2)
      \<in> cell_index 65536 2 65537 ` set (drawn_pixels (CHR ''0'') 65536 131072 2 65537)"
    using drawn_pixels_zero_first(2) by (rule imageI)
  then have "1 * 65536 + 4
      \<in> cell_index 65536 2 65537 ` set (drawn_pixels (CHR ''0'') 65536 131072 2 65537)"
    unfolding index .
  then have "cells (ascii_draw_char_to_mono_buffer (CHR ''0'') (fresh_buffer (\<lambda>i. 0))
      65536 131072 2 65537 1) (1 * 65536 + 4) = 1"
    unfolding cells_mono by (rule if_P)
  then show ?thesis
    by (simp add: glyph_bit_at_def fresh_buffer_def)
qed

text \<open>
  Claim C7, amended. A buffer draw whose origin fails the bounds check returns the
  buffer as it was, and a glyph without a set bit leaves the buffer as it was. In a
  buffer whose width and height are values of \<^verbatim>\<open>int\<close> and that has at most
  \<open>INT_MAX + 1\<close> cells, a cell \<open>(px, py)\<close> with \<open>0 \<le> px < buf_width\<close> that does not
  lie under a set bit of the glyph keeps its value, under a cleared bit of the glyph
  or away from the glyph, and so does every index outside the array.
\<close>

theorem buffer_draws_frame:
  "(x < 0 \<or> y < 0 \<or> x \<ge> buf_width \<or> y \<ge> buf_height \<longrightarrow>
      ascii_draw_char_to_mono_buffer c buffer8 buf_width buf_height x y color8 = buffer8 \<and>
      ascii_draw_char_to_rgb565_buffer c buffer16 buf_width buf_height x y color16 = buffer16) \<and>
   (int_indexed buf_width buf_height \<longrightarrow>
      (\<forall>px py. 0 \<le> px \<and> px < buf_width \<and> \<not> glyph_bit_at (ascii_get_char_bitmap c) x y px py \<longrightarrow>
         cells (ascii_draw_char_to_mono_buffer c buffer8 buf_width buf_height x y color8)
             (py * buf_width + px) = cells buffer8 (py * buf_width + px) \<and>
         cells (ascii_draw_char_to_rgb565_buffer c buffer16 buf_width buf_height x y color16)
             (py * buf_width + px) = cells buffer16 (py * buf_width + px)) \<and>
      (\<forall>i. i < 0 \<or> buf_width * buf_height \<le> i \<longrightarrow>
         cells (ascii_draw_char_to_mono_buffer c buffer8 buf_width buf_height x y color8) i =
           cells buffer8 i \<and>
         cells (ascii_draw_char_to_rgb565_buffer c buffer16 buf_width buf_height x y color16) i =
           cells buffer16 i)) \<and>
   (glyph_pixels (ascii_get_char_bitmap c) = [] \<longrightarrow>
      ascii_draw_char_to_mono_buffer c buffer8 buf_width buf_height x y color8 = buffer8 \<and>
      ascii_draw_char_to_rgb565_buffer c buffer16 buf_width buf_height x y color16 = buffer16)"
proof (intro conjI allI impI)
  assume "x < 0 \<or> y < 0 \<or> x \<ge> buf_width \<or> y \<ge> buf_height"
  then have none: "drawn_pixels c buf_width buf_height x y = []"
    by (rule drawn_pixels_outside_origin)
  show "ascii_draw_char_to_mono_buffer c buffer8 buf_width buf_height x y color8 = buffer8"
    by (simp add: ascii_draw_char_to_mono_buffer_fold none)
  show "ascii_draw_char_to_rgb565_buffer c buffer16 buf_width buf_height x y color16 = buffer16"
    by (simp add: ascii_draw_char_to_rgb565_buffer_fold none)
next
  fix px py
  assume size: "int_indexed buf_width buf_height"
    and cell: "0 \<le> px \<and> px < buf_width \<and> \<not> glyph_bit_at (ascii_get_char_bitmap c) x y px py"
  then have untouched: "py * buf_width + px
      \<notin> cell_index buf_width x y ` set (drawn_pixels c buf_width buf_height x y)"
    using drawn_cell_is_glyph_bit [of buf_width buf_height px py x y c] by blast
  show "cells (ascii_draw_char_to_mono_buffer c buffer8 buf_width buf_height x y color8)
          (py * buf_width + px) = cells buffer8 (py * buf_width + px)"
    using untouched by (simp add: cells_mono)
  show "cells (ascii_draw_char_to_rgb565_buffer c buffer16 buf_width buf_height x y color16)
          (py * buf_width + px) = cells buffer16 (py * buf_width + px)"
    using untouched by (simp add: cells_rgb565)
next
  fix i :: int
  assume size: "int_indexed buf_width buf_height"
    and "i < 0 \<or> buf_width * buf_height \<le> i"
  then have untouched: "i \<notin> cell_index buf_width x y ` set (drawn_pixels c buf_width buf_height x y)"
    using drawn_index_inside [of buf_width buf_height i x y c] by auto
  show "cells (ascii_draw_char_to_mono_buffer c buffer8 buf_width buf_height x y color8) i =
        cells buffer8 i"
    using untouched by (simp add: cells_mono)
  show "cells (ascii_draw_char_to_rgb565_buffer c buffer16 buf_width buf_height x y color16) i =
        cells buffer16 i"
    using untouched by (simp add: cells_rgb565)
next
  assume "glyph_pixels (ascii_get_char_bitmap c) = []"
  then have none: "drawn_pixels c buf_width buf_height x y = []"
    by (rule drawn_pixels_no_bits)
  show "ascii_draw_char_to_mono_buffer c buffer8 buf_width buf_height x y color8 = buffer8"
    by (simp add: ascii_draw_char_to_mono_buffer_fold none)
  show "ascii_draw_char_to_rgb565_buffer c buffer16 buf_width buf_height x y color16 = buffer16"
    by (simp add: ascii_draw_char_to_rgb565_buffer_fold none)
qed

theorem buffer_draws_frame_witness:
  "ascii_draw_char_to_mono_buffer (CHR ''0'') (fresh_buffer (\<lambda>i. 7)) 8 8 (- 1) 0 1 =
     fresh_buffer (\<lambda>i. 7) \<and>
   ascii_draw_char_to_rgb565_buffer (CHR ''0'') (fresh_buffer (\<lambda>i. 7)) 8 8 0 8 1 =
     fresh_buffer (\<lambda>i. 7) \<and>
   \<not> glyph_bit_at (ascii_get_char_bitmap (CHR ''0'')) 0 0 0 0 \<and>
   cells (ascii_draw_char_to_mono_buffer (CHR ''0'') (fresh_buffer (\<lambda>i. 7)) 8 8 0 0 1) (0 * 8 + 0) = 7 \<and>
   cells (ascii_draw_char_to_rgb565_buffer (CHR ''0'') (fresh_buffer (\<lambda>i. 7)) 8 8 0 0 1) 64 = 7 \<and>
   glyph_pixels (ascii_get_char_bitmap (CHR ''A'')) = [] \<and>
   ascii_draw_char_to_mono_buffer (CHR ''A'') (fresh_buffer (\<lambda>i. 7)) 8 8 0 0 1 =
     fresh_buffer (\<lambda>i. 7)"
proof -
  let ?b8 = "fresh_buffer (\<lambda>i :: int. 7 :: uint8_t)"
  let ?b16 = "fresh_buffer (\<lambda>i :: int. 7 :: uint16_t)"
  have size: "int_indexed 8 8"
    by (simp add: int_indexed_def INT_MAX_def)
  have cleared: "\<not> glyph_bit_at (ascii_get_char_bitmap (CHR ''0'')) 0 0 0 0"
    by (simp add: glyph_bit_at_def ascii_get_char_bitmap_cases glyph_pixels_zero)
  have blank: "glyph_pixels (ascii_get_char_bitmap (CHR ''A'')) = []"
    by (simp add: ascii_get_char_bitmap_cases glyph_pixels_blank)
  have "ascii_draw_char_to_mono_buffer (CHR ''0'') ?b8 8 8 (- 1) 0 1 = ?b8"
    using buffer_draws_frame [where x = "- 1" and y = 0 and buf_width = 8 and buf_height = 8
        and c = "CHR ''0''" and ?buffer8.0 = ?b8 and ?color8.0 = 1 and ?buffer16.0 = ?b16 and ?color16.0 = 1]
    by simp
  moreover have "ascii_draw_char_to_rgb565_buffer (CHR ''0'') ?b16 8 8 0 8 1 = ?b16"
    using buffer_draws_frame [where x = 0 and y = 8 and buf_width = 8 and buf_height = 8
        and c = "CHR ''0''" and ?buffer8.0 = ?b8 and ?color8.0 = 1 and ?buffer16.0 = ?b16 and ?color16.0 = 1]
    by simp
  moreover have "cells (ascii_draw_char_to_mono_buffer (CHR ''0'') ?b8 8 8 0 0 1) (0 * 8 + 0) = 7"
    using cleared size
      buffer_draws_frame [where x = 0 and y = 0 and buf_width = 8 and buf_height = 8
        and c = "CHR ''0''" and ?buffer8.0 = ?b8 and ?color8.0 = 1 and ?buffer16.0 = ?b16 and ?color16.0 = 1,
        THEN conjunct2, THEN conjunct1, THEN mp, THEN conjunct1, THEN spec, THEN spec, of 0 0]
    by (simp add: fresh_buffer_def)
  moreover have "cells (ascii_draw_char_to_rgb565_buffer (CHR ''0'') ?b16 8 8 0 0 1) 64 = 7"
    using size
      buffer_draws_frame [where x = 0 and y = 0 and buf_width = 8 and buf_height = 8
        and c = "CHR ''0''" and ?buffer8.0 = ?b8 and ?color8.0 = 1 and ?buffer16.0 = ?b16 and ?color16.0 = 1,
        THEN conjunct2, THEN conjunct1, THEN mp, THEN conjunct2, THEN spec, of 64]
    by (simp add: fresh_buffer_def)
  moreover have "ascii_draw_char_to_mono_buffer (CHR ''A'') ?b8 8 8 0 0 1 = ?b8"
    using blank
      buffer_draws_frame [where x = 0 and y = 0 and buf_width = 8 and buf_height = 8
        and c = "CHR ''A''" and ?buffer8.0 = ?b8 and ?color8.0 = 1 and ?buffer16.0 = ?b16 and ?color16.0 = 1]
    by simp
  ultimately show ?thesis
    using cleared blank by simp
qed

text \<open>
  Claim C8. Drawing a character into a buffer a second time, with the same
  arguments, leaves every cell as the first draw left it, for the monochrome and for
  the RGB565 buffer; the second draw stores the same values at the same indices.
\<close>

theorem buffer_draws_idempotent:
  "cells (ascii_draw_char_to_mono_buffer c
       (ascii_draw_char_to_mono_buffer c buffer8 buf_width buf_height x y color8)
       buf_width buf_height x y color8) =
     cells (ascii_draw_char_to_mono_buffer c buffer8 buf_width buf_height x y color8) \<and>
   cells (ascii_draw_char_to_rgb565_buffer c
       (ascii_draw_char_to_rgb565_buffer c buffer16 buf_width buf_height x y color16)
       buf_width buf_height x y color16) =
     cells (ascii_draw_char_to_rgb565_buffer c buffer16 buf_width buf_height x y color16) \<and>
   new_writes (ascii_draw_char_to_mono_buffer c buffer8 buf_width buf_height x y color8)
     (ascii_draw_char_to_mono_buffer c
       (ascii_draw_char_to_mono_buffer c buffer8 buf_width buf_height x y color8)
       buf_width buf_height x y color8) =
     new_writes buffer8 (ascii_draw_char_to_mono_buffer c buffer8 buf_width buf_height x y color8) \<and>
   new_writes (ascii_draw_char_to_rgb565_buffer c buffer16 buf_width buf_height x y color16)
     (ascii_draw_char_to_rgb565_buffer c
       (ascii_draw_char_to_rgb565_buffer c buffer16 buf_width buf_height x y color16)
       buf_width buf_height x y color16) =
     new_writes buffer16 (ascii_draw_char_to_rgb565_buffer c buffer16 buf_width buf_height x y color16)"
proof (intro conjI)
  show "cells (ascii_draw_char_to_mono_buffer c
       (ascii_draw_char_to_mono_buffer c buffer8 buf_width buf_height x y color8)
       buf_width buf_height x y color8) =
     cells (ascii_draw_char_to_mono_buffer c buffer8 buf_width buf_height x y color8)"
    by (rule ext) (simp add: cells_mono)
  show "cells (ascii_draw_char_to_rgb565_buffer c
       (ascii_draw_char_to_rgb565_buffer c buffer16 buf_width buf_height x y color16)
       buf_width buf_height x y color16) =
     cells (ascii_draw_char_to_rgb565_buffer c buffer16 buf_width buf_height x y color16)"
    by (rule ext) (simp add: cells_rgb565)
qed (simp_all only: new_writes_mono new_writes_rgb565)

theorem buffer_draws_idempotent_witness:
  "cells (ascii_draw_char_to_mono_buffer (CHR ''0'')
       (ascii_draw_char_to_mono_buffer (CHR ''0'') (fresh_buffer (\<lambda>i. 0)) 5 4 2 1 1) 5 4 2 1 1) =
     cells (ascii_draw_char_to_mono_buffer (CHR ''0'') (fresh_buffer (\<lambda>i. 0)) 5 4 2 1 1) \<and>
   cells (ascii_draw_char_to_mono_buffer (CHR ''0'') (fresh_buffer (\<lambda>i. 0)) 5 4 2 1 1) 9 = 1 \<and>
   cells (ascii_draw_char_to_mono_buffer (CHR ''0'') (fresh_buffer (\<lambda>i. 0)) 5 4 2 1 1) 8 = 0"
  using buffer_draws_idempotent [of "CHR ''0''" "fresh_buffer (\<lambda>i. 0)" 5 4 2 1 1
      "fresh_buffer (\<lambda>i. 0)" 1]
  by (simp add: cells_mono drawn_pixels_zero_clipped cell_index_def fresh_buffer_def wrap_int_def)

text \<open>
  Claim C9. For the same character, dimensions and origin, the monochrome and the
  RGB565 draw store at the same indices in the same order, each its own colour at
  every one of them, and each leaves its colour in exactly these cells and the other
  cells as they were: the two differ in the element type of the buffer only.
\<close>

theorem mono_and_rgb565_draws_agree:
  "map fst (new_writes buffer8
       (ascii_draw_char_to_mono_buffer c buffer8 buf_width buf_height x y color8)) =
     map fst (new_writes buffer16
       (ascii_draw_char_to_rgb565_buffer c buffer16 buf_width buf_height x y color16)) \<and>
   new_writes buffer8 (ascii_draw_char_to_mono_buffer c buffer8 buf_width buf_height x y color8) =
     map (\<lambda>p. (cell_index buf_width x y p, color8)) (drawn_pixels c buf_width buf_height x y) \<and>
   new_writes buffer16 (ascii_draw_char_to_rgb565_buffer c buffer16 buf_width buf_height x y color16) =
     map (\<lambda>p. (cell_index buf_width x y p, color16)) (drawn_pixels c buf_width buf_height x y) \<and>
   cells (ascii_draw_char_to_mono_buffer c buffer8 buf_width buf_height x y color8) i =
     (if i \<in> cell_index buf_width x y ` set (drawn_pixels c buf_width buf_height x y)
      then color8 else cells buffer8 i) \<and>
   cells (ascii_draw_char_to_rgb565_buffer c buffer16 buf_width buf_height x y color16) i =
     (if i \<in> cell_index buf_width x y ` set (drawn_pixels c buf_width buf_height x y)
      then color16 else cells buffer16 i)"
  by (simp add: new_writes_mono new_writes_rgb565 cells_mono cells_rgb565 comp_def)

theorem mono_and_rgb565_draws_agree_witness:
  "map fst (new_writes (fresh_buffer (\<lambda>i. 0))
       (ascii_draw_char_to_mono_buffer (CHR ''0'') (fresh_buffer (\<lambda>i. 0)) 5 4 2 1 1)) =
     [9, 13, 14, 18, 19] \<and>
   map fst (new_writes (fresh_buffer (\<lambda>i. 0))
       (ascii_draw_char_to_rgb565_buffer (CHR ''0'') (fresh_buffer (\<lambda>i. 0)) 5 4 2 1 0xFFFF)) =
     [9, 13, 14, 18, 19]"
  using mono_and_rgb565_draws_agree [of "fresh_buffer (\<lambda>i. 0)" "CHR ''0''" 5 4 2 1 1
      "fresh_buffer (\<lambda>i. 0)" "0xFFFF" 0]
  by (simp add: drawn_pixels_zero_clipped cell_index_def wrap_int_def)

section \<open>The shipped glyph table\<close>

lemma ascii_font_blank_except_zero:
  "i < length ascii_font \<Longrightarrow> i \<noteq> 16 \<Longrightarrow> ascii_font ! i = replicate 8 0"
  by (simp add: length_ascii_font ascii_font_nth blank_glyph_def numeral_eq_Suc)

lemma ascii_font_zero: "ascii_font ! 16 = [0x3E, 0x7F, 0x6B, 0x6B, 0x6B, 0x6B, 0x7F, 0x3E]"
  by (simp add: ascii_font_nth zero_glyph_def)

lemma glyph_pixels_other_than_zero:
  "c \<noteq> CHR ''0'' \<Longrightarrow> glyph_pixels (ascii_get_char_bitmap c) = []"
  by (simp add: ascii_get_char_bitmap_cases glyph_pixels_blank)

text \<open>
  Claim C10. In the table as shipped, every glyph but the one at index 16, the glyph
  of \<^verbatim>\<open>'0'\<close> (code 48) with rows \<open>3E 7F 6B 6B 6B 6B 7F 3E\<close>, is eight zero bytes.
  Hence for a character other than \<^verbatim>\<open>'0'\<close> \<^verbatim>\<open>ascii_draw_char\<close> never calls the callback,
  and the two buffer draws return the buffer as it was, having stored nothing.
\<close>

theorem only_zero_glyph_is_drawn:
  "(\<forall>i < length ascii_font. i \<noteq> 16 \<longrightarrow> ascii_font ! i = replicate 8 0) \<and>
   ascii_font ! 16 = [0x3E, 0x7F, 0x6B, 0x6B, 0x6B, 0x6B, 0x7F, 0x3E] \<and>
   ascii_get_char_bitmap (CHR ''0'') = ascii_font ! 16 \<and>
   (c \<noteq> CHR ''0'' \<longrightarrow>
      ascii_get_char_bitmap c = replicate 8 0 \<and>
      ascii_draw_char c x y pixel_fn color user_data s = s \<and>
      ascii_draw_char c x y record_call color user_data calls = calls \<and>
      ascii_draw_char_to_mono_buffer c buffer8 buf_width buf_height x y color8 = buffer8 \<and>
      ascii_draw_char_to_rgb565_buffer c buffer16 buf_width buf_height x y color16 = buffer16)"
proof (intro conjI allI impI)
  fix i
  assume "i < length ascii_font" "i \<noteq> 16"
  then show "ascii_font ! i = replicate 8 0"
    by (rule ascii_font_blank_except_zero)
next
  show "ascii_font ! 16 = [0x3E, 0x7F, 0x6B, 0x6B, 0x6B, 0x6B, 0x7F, 0x3E]"
    by (rule ascii_font_zero)
  show "ascii_get_char_bitmap (CHR ''0'') = ascii_font ! 16"
    by (simp add: ascii_get_char_bitmap_cases ascii_font_nth)
next
  assume other: "c \<noteq> CHR ''0''"
  note none = glyph_pixels_other_than_zero [OF other]
  show "ascii_get_char_bitmap c = replicate 8 0"
    using other by (simp add: ascii_get_char_bitmap_cases blank_glyph_def numeral_eq_Suc)
  show "ascii_draw_char c x y pixel_fn color user_data s = s"
    by (simp add: ascii_draw_char_fold none)
  show "ascii_draw_char c x y record_call color user_data calls = calls"
    by (simp add: ascii_draw_char_fold none)
  show "ascii_draw_char_to_mono_buffer c buffer8 buf_width buf_height x y color8 = buffer8"
    by (simp add: ascii_draw_char_to_mono_buffer_fold drawn_pixels_no_bits [OF none])
  show "ascii_draw_char_to_rgb565_buffer c buffer16 buf_width buf_height x y color16 = buffer16"
    by (simp add: ascii_draw_char_to_rgb565_buffer_fold drawn_pixels_no_bits [OF none])
qed

theorem only_zero_glyph_is_drawn_witness:
  "(33 :: nat) < length ascii_font \<and> ascii_font ! 33 = replicate 8 0 \<and>
   CHR ''A'' \<noteq> CHR ''0'' \<and>
   ascii_draw_char (CHR ''A'') 0 0 record_call True () [] = [] \<and>
   ascii_draw_char_to_mono_buffer (CHR ''A'') (fresh_buffer (\<lambda>i. 0)) 8 8 0 0 1 =
     fresh_buffer (\<lambda>i. 0) \<and>
   ascii_draw_char_to_rgb565_buffer (CHR ''~'') (fresh_buffer (\<lambda>i. 0)) 8 8 0 0 0xFFFF =
     fresh_buffer (\<lambda>i. 0)"
  using
    only_zero_glyph_is_drawn [of "CHR ''A''" 0 0 "\<lambda>px py color user_data s. s" True "()" "()"
      "[]" "fresh_buffer (\<lambda>i. 0)" 8 8 1 "fresh_buffer (\<lambda>i. 0)" "0xFFFF", THEN conjunct1, THEN spec, of 33]
    only_zero_glyph_is_drawn [of "CHR ''A''" 0 0 "\<lambda>px py color user_data s. s" True "()" "()"
      "[]" "fresh_buffer (\<lambda>i. 0)" 8 8 1 "fresh_buffer (\<lambda>i. 0)" "0xFFFF"]
    only_zero_glyph_is_drawn [of "CHR ''~''" 0 0 "\<lambda>px py color user_data s. s" True "()" "()"
      "[]" "fresh_buffer (\<lambda>i. 0)" 8 8 1 "fresh_buffer (\<lambda>i. 0)" "0xFFFF"]
  by (simp add: length_ascii_font)


end
